theory Spec2Isabelle
  imports Main "HOL-Library.Word"
begin

unbundle bit_operations_syntax

section \<open>DGR: a master shares named variables with slaves over UDP (dgr.c)\<close>

text \<open>
  A shallow embedding of \<^verbatim>\<open>dgr.c\<close>. The file-level statics become the record
  \<open>dgr_state\<close>, every function takes the state and returns the new one, and whatever ends
  a call other than by returning is a value of type \<open>fault\<close>: a call of \<^verbatim>\<open>exit(1)\<close>, an
  access outside an object (undefined behaviour in C), or a system call that never
  returns.
\<close>

subsection \<open>Bytes, C integers and byte order\<close>

type_synonym byte = "8 word"

text \<open>A C \<^verbatim>\<open>int\<close>: 32 bits, two's complement, read by \<open>sint\<close>.\<close>

type_synonym c_int = "32 word"

text \<open>
  \<^verbatim>\<open>memcpy(ptr, &size, sizeof(int))\<close> copies the four bytes of the integer as the host
  stores them, so the byte order of the host is a parameter of the model.
\<close>

datatype endian = LittleEndian | BigEndian

definition int_bytes :: "endian \<Rightarrow> c_int \<Rightarrow> byte list" where
  "int_bytes e x =
     (let le = [ucast x, ucast (drop_bit 8 x), ucast (drop_bit 16 x), ucast (drop_bit 24 x)]
      in case e of LittleEndian \<Rightarrow> le | BigEndian \<Rightarrow> rev le)"

definition bytes_int :: "endian \<Rightarrow> byte list \<Rightarrow> c_int" where
  "bytes_int e bs =
     (case (case e of LittleEndian \<Rightarrow> bs | BigEndian \<Rightarrow> rev bs) of
        [b0, b1, b2, b3] \<Rightarrow>
          ucast b0 OR push_bit 8 (ucast b1) OR push_bit 16 (ucast b2) OR push_bit 24 (ucast b3)
      | _ \<Rightarrow> 0)"

text \<open>
  A \<^verbatim>\<open>const char *\<close> is modelled by the bytes it points to; the C string in it ends
  before the first NUL (or with the list).
\<close>

definition c_string :: "byte list \<Rightarrow> byte list" where
  "c_string p = takeWhile (\<lambda>c. c \<noteq> 0) p"

definition strlen :: "byte list \<Rightarrow> nat" where
  "strlen p = length (c_string p)"

subsection \<open>Faults\<close>

datatype exit_reason =
    ListSizeExceeded
  | NoPacketsWithin int
  | PollFailed
  | ReceiveTimedOut c_int
  | RecvfromFailed
  | SendtoFailed
  | SendIncomplete
  | NoMasterPort
  | NoSlavePort
  | GetaddrinfoFailed
  | NoSocket

datatype fault =
    Exit exit_reason
  | ReadOutOfBounds
  | WriteOutOfBounds
  | NullPointer
  | Blocked

text \<open>
  \<^verbatim>\<open>memcpy(dest, src, n)\<close> with an \<^verbatim>\<open>int n\<close>: a negative \<open>n\<close> becomes a \<^verbatim>\<open>size_t\<close> beyond
  the size of any object. The result is the destination object after the copy.
\<close>

definition memcpy :: "byte list \<Rightarrow> byte list \<Rightarrow> c_int \<Rightarrow> fault + byte list" where
  "memcpy dest src n =
     (if sint n < 0 then Inl ReadOutOfBounds
      else let k = nat (sint n) in
        if length src < k then Inl ReadOutOfBounds
        else if length dest < k then Inl WriteOutOfBounds
        else Inr (take k src @ drop k dest))"

text \<open>
  \<^verbatim>\<open>malloc(n)\<close> with an \<^verbatim>\<open>int n\<close>: a negative \<open>n\<close> asks for more than the address space
  and gives \<^verbatim>\<open>NULL\<close>. The bytes of a fresh block are indeterminate; they are shown as
  zeros, and every caller below overwrites the block before it is read.
\<close>

definition malloc :: "c_int \<Rightarrow> byte list option" where
  "malloc n = (if sint n < 0 then None else Some (replicate (nat (sint n)) 0))"

subsection \<open>The record list and the other statics\<close>

record dgr_record =
  name :: "byte list"
  size_r :: c_int
  buffer :: "byte list"

text \<open>
  \<open>dgr_list\<close> holds the first \<^verbatim>\<open>dgr_list_size\<close> slots of the array
  \<^verbatim>\<open>dgr_list[DGR_MAX_LIST_SIZE]\<close>; \<open>name\<close> holds the characters of \<^verbatim>\<open>name[1024]\<close> before its
  NUL, \<open>buffer\<close> the block that \<^verbatim>\<open>buffer\<close> points to.
\<close>

record dgr_state =
  dgr_list :: "dgr_record list"
  dgr_time_lastreceive :: int
  dgr_mode :: c_int
  dgr_disabled :: c_int

definition DGR_MAX_LIST_SIZE :: int where
  "DGR_MAX_LIST_SIZE = 1024"

definition dgr_list_size :: "dgr_state \<Rightarrow> int" where
  "dgr_list_size st = int (length (dgr_list st))"

text \<open>The statics as their initialisers leave them, before any call of \<^verbatim>\<open>dgr_init\<close>.\<close>

definition initial_state :: dgr_state where
  "initial_state =
     \<lparr>dgr_list = [], dgr_time_lastreceive = 0, dgr_mode = 0, dgr_disabled = 0\<rparr>"

definition dgr_free :: "dgr_state \<Rightarrow> dgr_state" where
  "dgr_free st = st\<lparr>dgr_list := []\<rparr>"

definition dgr_is_master :: "dgr_state \<Rightarrow> c_int" where
  "dgr_is_master st = dgr_mode st"

definition dgr_is_enabled :: "dgr_state \<Rightarrow> c_int" where
  "dgr_is_enabled st = (if dgr_disabled st \<noteq> 0 then 0 else 1)"

subsection \<open>dgr\_init\<close>

text \<open>
  What \<^verbatim>\<open>dgr_init\<close> reads from its environment: the four variables, and whether
  \<^verbatim>\<open>getaddrinfo\<close> succeeds and one of its results yields a socket (bound, for a slave).
\<close>

record environment =
  DGR_MODE :: "string option"
  DGR_MASTER_DEST_IP :: "string option"
  DGR_MASTER_DEST_PORT :: "string option"
  DGR_SLAVE_LISTEN_PORT :: "string option"
  getaddrinfo_ok :: bool
  socket_ok :: bool

definition dgr_init_master :: "environment \<Rightarrow> dgr_state \<Rightarrow> fault + dgr_state" where
  "dgr_init_master env st =
     (let ipAddr = DGR_MASTER_DEST_IP env;
          port = DGR_MASTER_DEST_PORT env;
          st1 = (if ipAddr = None \<or> ipAddr = Some ''0.0.0.0''
                 then st\<lparr>dgr_disabled := 1\<rparr> else st\<lparr>dgr_disabled := 0\<rparr>)
      in if port = None then Inl (Exit NoMasterPort)
         else if \<not> getaddrinfo_ok env then Inl (Exit GetaddrinfoFailed)
         else if \<not> socket_ok env then Inl (Exit NoSocket)
         else Inr st1)"

definition dgr_init_slave :: "environment \<Rightarrow> dgr_state \<Rightarrow> fault + dgr_state" where
  "dgr_init_slave env st =
     (if DGR_SLAVE_LISTEN_PORT env = None then Inl (Exit NoSlavePort)
      else let st1 = st\<lparr>dgr_time_lastreceive := 0\<rparr>
        in if \<not> getaddrinfo_ok env then Inl (Exit GetaddrinfoFailed)
           else if \<not> socket_ok env then Inl (Exit NoSocket)
           else Inr st1)"

definition dgr_init :: "environment \<Rightarrow> dgr_state \<Rightarrow> fault + dgr_state" where
  "dgr_init env st =
     (let st1 = st\<lparr>dgr_disabled := 1\<rparr>;
          r = (case DGR_MODE env of
                 None \<Rightarrow> Inr st1
               | Some master \<Rightarrow>
                   if master = ''master''
                   then dgr_init_master env (st1\<lparr>dgr_mode := 1, dgr_disabled := 0\<rparr>)
                   else if master = ''slave''
                   then dgr_init_slave env (st1\<lparr>dgr_mode := 0, dgr_disabled := 0\<rparr>)
                   else Inr st1)
      in case r of
           Inl f \<Rightarrow> Inl f
         | Inr st2 \<Rightarrow> Inr (if dgr_list_size st2 > 0 then dgr_free st2 else st2))"

subsection \<open>dgr\_findIndex, dgr\_get, dgr\_set, dgr\_setget\<close>

text \<open>\<^verbatim>\<open>strcmp(a, b) == 0\<close>: the two C strings are equal.\<close>

definition strcmp_eq :: "byte list \<Rightarrow> byte list \<Rightarrow> bool" where
  "strcmp_eq a b = (c_string a = c_string b)"

fun findIndex_from :: "byte list \<Rightarrow> dgr_record list \<Rightarrow> int \<Rightarrow> int" where
  "findIndex_from nm [] i = - 1"
| "findIndex_from nm (r # rs) i =
     (if strcmp_eq nm (name r) then i else findIndex_from nm rs (i + 1))"

definition dgr_findIndex :: "dgr_state \<Rightarrow> byte list \<Rightarrow> int" where
  "dgr_findIndex st nm = findIndex_from nm (dgr_list st) 0"

text \<open>
  \<open>dgr_get\<close> returns the C return value and the caller's buffer as the call leaves it.
\<close>

definition dgr_get ::
  "dgr_state \<Rightarrow> byte list \<Rightarrow> byte list \<Rightarrow> c_int \<Rightarrow> fault + (c_int \<times> byte list)" where
  "dgr_get st nm buf bufferSize =
     (if dgr_disabled st \<noteq> 0 then Inr (- 3, buf)
      else let index = dgr_findIndex st nm in
        if index = - 1 then Inr (- 1, buf)
        else let rec = dgr_list st ! nat index in
          if sint (size_r rec) \<le> sint bufferSize
          then (case memcpy buf (buffer rec) (size_r rec) of
                  Inl f \<Rightarrow> Inl f
                | Inr buf' \<Rightarrow> Inr (size_r rec, buf'))
          else Inr (- 2, buf))"

text \<open>
  \<open>dgr_set\<close> on a new name: the only test is \<^verbatim>\<open>dgr_list_size > DGR_MAX_LIST_SIZE\<close>. The
  array has \<^verbatim>\<open>DGR_MAX_LIST_SIZE\<close> slots, so the slot \<^verbatim>\<open>dgr_list[dgr_list_size]\<close> that the
  code then writes is outside the array when \<^verbatim>\<open>dgr_list_size\<close> is \<^verbatim>\<open>DGR_MAX_LIST_SIZE\<close>;
  \<^verbatim>\<open>sprintf\<close> writes the name and its NUL into \<^verbatim>\<open>name[1024]\<close>; \<^verbatim>\<open>memcpy\<close> reads \<open>sz\<close>
  bytes of the caller's buffer \<open>buf\<close>. On a known name the block is kept when the size is
  the same and replaced by a fresh one otherwise.
\<close>

definition dgr_set ::
  "dgr_state \<Rightarrow> byte list \<Rightarrow> byte list \<Rightarrow> c_int \<Rightarrow> fault + dgr_state" where
  "dgr_set st nm buf sz =
     (if dgr_disabled st \<noteq> 0 then Inr st
      else let index = dgr_findIndex st nm in
        if index = - 1 then
          if dgr_list_size st > DGR_MAX_LIST_SIZE then Inl (Exit ListSizeExceeded)
          else if dgr_list_size st \<ge> DGR_MAX_LIST_SIZE then Inl WriteOutOfBounds
          else if strlen nm + 1 > 1024 then Inl WriteOutOfBounds
          else (case malloc sz of
                  None \<Rightarrow> Inl NullPointer
                | Some blk \<Rightarrow>
                    (case memcpy blk buf sz of
                       Inl f \<Rightarrow> Inl f
                     | Inr b \<Rightarrow>
                         Inr (st\<lparr>dgr_list := dgr_list st @
                                [\<lparr>name = c_string nm, size_r = sz, buffer = b\<rparr>]\<rparr>)))
        else let record = dgr_list st ! nat index in
          (case (if size_r record \<noteq> sz
                 then (case malloc sz of
                         None \<Rightarrow> Inl NullPointer
                       | Some blk \<Rightarrow> Inr (record\<lparr>buffer := blk, size_r := sz\<rparr>))
                 else Inr record) of
             Inl f \<Rightarrow> Inl f
           | Inr record' \<Rightarrow>
               (case memcpy (buffer record') buf sz of
                  Inl f \<Rightarrow> Inl f
                | Inr b \<Rightarrow>
                    Inr (st\<lparr>dgr_list := (dgr_list st)[nat index := record'\<lparr>buffer := b\<rparr>]\<rparr>))))"

text \<open>
  \<open>dgr_setget\<close> returns the state and the caller's buffer. The messages it prints are
  not part of the model.
\<close>

definition dgr_setget ::
  "dgr_state \<Rightarrow> byte list \<Rightarrow> byte list \<Rightarrow> c_int \<Rightarrow> fault + (dgr_state \<times> byte list)" where
  "dgr_setget st nm buf bufferSize =
     (if dgr_disabled st \<noteq> 0 then Inr (st, buf)
      else if dgr_mode st \<noteq> 0
      then (case dgr_set st nm buf bufferSize of
              Inl f \<Rightarrow> Inl f
            | Inr st' \<Rightarrow> Inr (st', buf))
      else (case dgr_get st nm buf bufferSize of
              Inl f \<Rightarrow> Inl f
            | Inr (ret, buf') \<Rightarrow> Inr (st, buf')))"

subsection \<open>dgr\_serialize and dgr\_unserialize\<close>

text \<open>
  The first loop of \<^verbatim>\<open>dgr_serialize\<close>: the sum is computed in \<^verbatim>\<open>size_t\<close> and stored back
  into the \<^verbatim>\<open>int spaceNeeded\<close>, which keeps its low 32 bits.
\<close>

fun space_needed :: "dgr_record list \<Rightarrow> c_int \<Rightarrow> c_int" where
  "space_needed [] spaceNeeded = spaceNeeded"
| "space_needed (r # rs) spaceNeeded =
     space_needed rs (spaceNeeded + (word_of_nat (strlen (name r)) + 1 + 4 + size_r r))"

text \<open>
  The second loop: \<open>out\<close> is what has been written from the start of the block up to
  \<^verbatim>\<open>ptr\<close>.
\<close>

fun serialize_loop :: "endian \<Rightarrow> dgr_record list \<Rightarrow> byte list \<Rightarrow> fault + byte list" where
  "serialize_loop e [] out = Inr out"
| "serialize_loop e (r # rs) out =
     (if sint (size_r r) < 0 \<or> length (buffer r) < nat (sint (size_r r))
      then Inl ReadOutOfBounds
      else serialize_loop e rs
             (out @ c_string (name r) @ [0] @ int_bytes e (size_r r)
                  @ take (nat (sint (size_r r))) (buffer r)))"

text \<open>
  \<open>dgr_serialize\<close> returns \<^verbatim>\<open>*size\<close> and the block. A write beyond the \<open>spaceNeeded\<close>
  bytes of the block is a fault.
\<close>

definition dgr_serialize :: "endian \<Rightarrow> dgr_state \<Rightarrow> fault + (c_int \<times> byte list)" where
  "dgr_serialize e st =
     (let spaceNeeded = space_needed (dgr_list st) 0 in
      case malloc spaceNeeded of
        None \<Rightarrow> Inl NullPointer
      | Some serialized \<Rightarrow>
          (case serialize_loop e (dgr_list st) [] of
             Inl f \<Rightarrow> Inl f
           | Inr out \<Rightarrow>
               if length serialized < length out then Inl WriteOutOfBounds
               else Inr (spaceNeeded, out @ drop (length out) serialized)))"

text \<open>
  One turn of the loop of \<^verbatim>\<open>dgr_unserialize\<close> up to the call of \<^verbatim>\<open>dgr_set\<close>, on the
  bytes \<open>rest\<close> from \<^verbatim>\<open>ptr\<close> to the end of the object: the name up to its NUL, copied
  into \<^verbatim>\<open>name[1024]\<close>; four bytes of size; \<^verbatim>\<open>size\<close> bytes of data. It gives the name, the
  size, the data and the bytes after them. The scan writes \<^verbatim>\<open>name[i]\<close> for the \<open>i\<close>-th
  character and the NUL after the last: a name of 1024 characters or more is written
  beyond \<^verbatim>\<open>name[1023]\<close>, and a scan that meets no NUL reads beyond the object. No read is
  compared with the length of the input: one beyond the end of the object is a fault. A
  negative \<^verbatim>\<open>size\<close> makes \<^verbatim>\<open>memcpy\<close> read beyond any object; \<^verbatim>\<open>char data[0]\<close> is taken
  as the empty array it is for the compilers that accept it.
\<close>

definition read_record ::
  "endian \<Rightarrow> byte list \<Rightarrow> fault + (byte list \<times> c_int \<times> byte list \<times> byte list)" where
  "read_record e rest =
     (let c = strlen rest in
      if length rest \<le> c then (if 1024 < c then Inl WriteOutOfBounds else Inl ReadOutOfBounds)
      else if 1024 \<le> c then Inl WriteOutOfBounds
      else let rest1 = drop (c + 1) rest in
        if length rest1 < 4 then Inl ReadOutOfBounds
        else let sz = bytes_int e (take 4 rest1);
                 rest2 = drop 4 rest1 in
          if sint sz < 0 then Inl ReadOutOfBounds
          else if length rest2 < nat (sint sz) then Inl ReadOutOfBounds
          else Inr (c_string rest, sz, take (nat (sint sz)) rest2, drop (nat (sint sz)) rest2))"

text \<open>
  The loop of \<^verbatim>\<open>dgr_unserialize\<close>: \<open>remaining\<close> is \<^verbatim>\<open>serialized + size - ptr\<close>.
\<close>

function unserialize_loop :: "endian \<Rightarrow> dgr_state \<Rightarrow> int \<Rightarrow> byte list \<Rightarrow> fault + dgr_state" where
  "unserialize_loop e st remaining rest =
     (if remaining \<le> 0 then Inr st
      else (case read_record e rest of
              Inl f \<Rightarrow> Inl f
            | Inr (nm, sz, data, rest') \<Rightarrow>
                (case dgr_set st nm data sz of
                   Inl f \<Rightarrow> Inl f
                 | Inr st' \<Rightarrow>
                     unserialize_loop e st'
                       (remaining - (int (length rest) - int (length rest'))) rest')))"
  by pat_completeness auto
termination
  by (relation "measure (\<lambda>(e, st, remaining, rest). length rest)")
     (auto simp: read_record_def Let_def split: if_splits)

definition dgr_unserialize :: "endian \<Rightarrow> dgr_state \<Rightarrow> c_int \<Rightarrow> byte list \<Rightarrow> fault + dgr_state" where
  "dgr_unserialize e st sz serialized = unserialize_loop e st (sint sz) serialized"

subsection \<open>The clock and the socket\<close>

text \<open>
  What the system calls of \<^verbatim>\<open>dgr_send\<close> and \<^verbatim>\<open>dgr_receive\<close> see during one call of
  \<^verbatim>\<open>dgr_update\<close>: \<open>clock\<close> is what \<^verbatim>\<open>time(NULL)\<close> returns; \<open>pending\<close> holds the
  datagrams that \<^verbatim>\<open>dgr_socket\<close> has to read, oldest first, those that arrive while a
  \<^verbatim>\<open>poll\<close> waits included (so an empty list says that nothing arrives before the
  timeout runs out); the two flags say whether \<^verbatim>\<open>poll\<close> and \<^verbatim>\<open>recvfrom\<close> fail;
  \<open>sendto_accepts\<close> is the number of bytes \<^verbatim>\<open>sendto\<close> takes (\<open>None\<close>: it fails); \<open>sent\<close>
  lists the datagrams sent.
\<close>

record world =
  clock :: int
  pending :: "byte list list"
  poll_fails :: bool
  recvfrom_fails :: bool
  sendto_accepts :: "nat option"
  sent :: "byte list list"

definition poll :: "world \<Rightarrow> c_int \<Rightarrow> int" where
  "poll w timeout = (if poll_fails w then - 1 else if pending w = [] then 0 else 1)"

definition sendto :: "world \<Rightarrow> byte list \<Rightarrow> c_int \<Rightarrow> int \<times> world" where
  "sendto w buf len =
     (case sendto_accepts w of
        None \<Rightarrow> (- 1, w)
      | Some k \<Rightarrow>
          (let n = min k (nat (sint len))
           in (int n, w\<lparr>sent := sent w @ [take n buf]\<rparr>)))"

text \<open>
  \<^verbatim>\<open>recvfrom(dgr_socket, serialized, len, ...)\<close> takes the oldest datagram, cut to \<open>len\<close>
  bytes, and writes it over the start of the array; the bytes of the array after it stay.
  It gives the number of bytes received (-1 when it fails) and the array. On a socket
  with nothing to read it does not return.

  The array \<^verbatim>\<open>char serialized[1024*1024]\<close> of \<^verbatim>\<open>dgr_receive\<close> is not initialised: the
  model holds the bytes of it that a \<^verbatim>\<open>recvfrom\<close> of this call has written (a prefix of
  the array), and a read beyond them, of bytes that nothing has written or beyond the
  array, is the fault \<open>ReadOutOfBounds\<close>.
\<close>

definition recvfrom :: "world \<Rightarrow> byte list \<Rightarrow> nat \<Rightarrow> fault + (int \<times> byte list \<times> world)" where
  "recvfrom w buf len =
     (if recvfrom_fails w then Inr (- 1, buf, w)
      else (case pending w of
              [] \<Rightarrow> Inl Blocked
            | p # ps \<Rightarrow>
                Inr (int (length (take len p)),
                     take len p @ drop (length (take len p)) buf,
                     w\<lparr>pending := ps\<rparr>)))"

text \<open>
  The \<^verbatim>\<open>while(1)\<close> loop of \<^verbatim>\<open>dgr_receive\<close>: it reads datagrams into the same array
  until \<^verbatim>\<open>poll\<close> with a timeout of 0 returns 0, and gives the \<^verbatim>\<open>numbytes\<close> of the last
  \<^verbatim>\<open>recvfrom\<close> and the array.
\<close>

function receive_loop :: "world \<Rightarrow> byte list \<Rightarrow> fault + (c_int \<times> byte list \<times> world)" where
  "receive_loop w serialized =
     (case recvfrom w serialized (1024 * 1024) of
        Inl f \<Rightarrow> Inl f
      | Inr (numbytes, serialized', w') \<Rightarrow>
          if numbytes = - 1 then Inl (Exit RecvfromFailed)
          else if poll w' 0 = 0 then Inr (word_of_int numbytes, serialized', w')
          else receive_loop w' serialized')"
  by pat_completeness auto
termination
  by (relation "measure (\<lambda>(w, serialized). length (pending w))")
     (auto simp: recvfrom_def split: if_splits list.splits)

subsection \<open>dgr\_send, dgr\_receive, dgr\_update\<close>

definition dgr_send :: "endian \<Rightarrow> dgr_state \<Rightarrow> world \<Rightarrow> fault + (dgr_state \<times> world)" where
  "dgr_send e st w =
     (if dgr_disabled st \<noteq> 0 then Inr (st, w)
      else (case dgr_serialize e st of
              Inl f \<Rightarrow> Inl f
            | Inr (bufSize, buf) \<Rightarrow>
                if bufSize = 0 \<or> dgr_list_size st = 0 then Inr (st, w)
                else (case sendto w buf bufSize of
                        (numbytes, w') \<Rightarrow>
                          if numbytes = - 1 then Inl (Exit SendtoFailed)
                          else if numbytes \<noteq> sint bufSize then Inl (Exit SendIncomplete)
                          else Inr (st, w'))))"

text \<open>
  \<open>dgr_unserialize\<close> is handed \<^verbatim>\<open>numbytes\<close>, the length of the newest datagram, and the
  array: after the bytes of the newest datagram it still holds what longer datagrams
  read earlier in the same call left there.
\<close>

definition dgr_receive ::
  "endian \<Rightarrow> dgr_state \<Rightarrow> world \<Rightarrow> c_int \<Rightarrow> fault + (dgr_state \<times> world)" where
  "dgr_receive e st w timeout =
     (if dgr_disabled st \<noteq> 0 then Inr (st, w)
      else if dgr_time_lastreceive st \<noteq> 0 \<and> 15 \<le> clock w - dgr_time_lastreceive st
      then Inl (Exit (NoPacketsWithin 15))
      else let retval = poll w timeout in
        if retval = - 1 then Inl (Exit PollFailed)
        else if retval = 0
        then (if 0 < sint timeout then Inl (Exit (ReceiveTimedOut timeout)) else Inr (st, w))
        else (case receive_loop w [] of
                Inl f \<Rightarrow> Inl f
              | Inr (numbytes, serialized, w') \<Rightarrow>
                  (case dgr_unserialize e (st\<lparr>dgr_time_lastreceive := clock w'\<rparr>)
                          numbytes serialized of
                     Inl f \<Rightarrow> Inl f
                   | Inr st' \<Rightarrow> Inr (st', w'))))"

definition dgr_update :: "endian \<Rightarrow> dgr_state \<Rightarrow> world \<Rightarrow> fault + (dgr_state \<times> world)" where
  "dgr_update e st w =
     (if dgr_mode st \<noteq> 0 then dgr_send e st w
      else if dgr_time_lastreceive st = 0 then dgr_receive e st w 10000
      else dgr_receive e st w 0)"

subsection \<open>The wire format and the registry, in the words of the specification\<close>

text \<open>
  A record on the wire: the bytes of the name, one byte 0x00, the size as four bytes in
  the byte order of the host, then the data.
\<close>

definition wire_record :: "endian \<Rightarrow> dgr_record \<Rightarrow> byte list" where
  "wire_record e r = name r @ [0] @ int_bytes e (size_r r) @ buffer r"

definition wire_format :: "endian \<Rightarrow> dgr_record list \<Rightarrow> byte list" where
  "wire_format e rs = concat (map (wire_record e) rs)"

text \<open>
  A record as \<open>dgr_set\<close> leaves it: the name is a C string that fits \<^verbatim>\<open>name[1024]\<close> with
  its NUL, the size is not negative, and the block has \<open>size\<close> bytes.
\<close>

definition record_ok :: "dgr_record \<Rightarrow> bool" where
  "record_ok r \<longleftrightarrow>
     0 \<notin> set (name r) \<and> length (name r) < 1024 \<and> 0 \<le> sint (size_r r) \<and>
     length (buffer r) = nat (sint (size_r r))"

text \<open>
  A registry: at most \<^verbatim>\<open>DGR_MAX_LIST_SIZE\<close> records, no name twice.
\<close>

definition registry_ok :: "dgr_record list \<Rightarrow> bool" where
  "registry_ok rs \<longleftrightarrow>
     list_all record_ok rs \<and> distinct (map name rs) \<and> int (length rs) \<le> DGR_MAX_LIST_SIZE"

text \<open>
  The specification's \<^verbatim>\<open>deserialize(bytes) -> sequence of (name, data)\<close>: the records
  of a packet, read as \<open>read_record\<close> reads them, without applying them.
\<close>

function parse_records ::
  "endian \<Rightarrow> int \<Rightarrow> byte list \<Rightarrow> fault + (byte list \<times> c_int \<times> byte list) list" where
  "parse_records e remaining rest =
     (if remaining \<le> 0 then Inr []
      else (case read_record e rest of
              Inl f \<Rightarrow> Inl f
            | Inr (nm, sz, data, rest') \<Rightarrow>
                (case parse_records e (remaining - (int (length rest) - int (length rest'))) rest' of
                   Inl f \<Rightarrow> Inl f
                 | Inr recs \<Rightarrow> Inr ((nm, sz, data) # recs))))"
  by pat_completeness auto
termination
  by (relation "measure (\<lambda>(e, remaining, rest). length rest)")
     (auto simp: read_record_def Let_def split: if_splits)

text \<open>The parsed records applied one after the other by \<open>dgr_set\<close>.\<close>

fun set_all :: "dgr_state \<Rightarrow> (byte list \<times> c_int \<times> byte list) list \<Rightarrow> fault + dgr_state" where
  "set_all st [] = Inr st"
| "set_all st ((nm, sz, data) # recs) =
     (case dgr_set st nm data sz of
        Inl f \<Rightarrow> Inl f
      | Inr st' \<Rightarrow> set_all st' recs)"

text \<open>
  The specification's lookup of a name in the registry: the first record of that name.
\<close>

definition lookup :: "dgr_record list \<Rightarrow> byte list \<Rightarrow> dgr_record option" where
  "lookup rs nm = find (\<lambda>r. name r = nm) rs"

text \<open>The bytes of an ASCII string.\<close>

definition bytes_of :: "string \<Rightarrow> byte list" where
  "bytes_of s = map of_char s"

section \<open>Properties\<close>

text \<open>
  The equations of the three loops are unfolded by hand, one turn at a time.
\<close>

declare unserialize_loop.simps [simp del]
declare parse_records.simps [simp del]
declare receive_loop.simps [simp del]

subsection \<open>Bytes and C strings\<close>

lemma word32_of_bytes:
  fixes x :: c_int
  shows "ucast (ucast x :: byte) OR
     push_bit 8 (ucast (ucast (drop_bit 8 x) :: byte)) OR
     push_bit 16 (ucast (ucast (drop_bit 16 x) :: byte)) OR
     push_bit 24 (ucast (ucast (drop_bit 24 x) :: byte)) = x"
proof (rule bit_word_eqI)
  fix n :: nat
  assume "n < LENGTH(32)"
  then consider "n < 8" | "8 \<le> n" "n < 16" | "16 \<le> n" "n < 24" | "24 \<le> n" "n < 32"
    by fastforce
  then show "bit (ucast (ucast x :: byte) OR
     push_bit 8 (ucast (ucast (drop_bit 8 x) :: byte)) OR
     push_bit 16 (ucast (ucast (drop_bit 16 x) :: byte)) OR
     push_bit 24 (ucast (ucast (drop_bit 24 x) :: byte)) :: c_int) n = bit x n"
    by cases (auto simp: bit_simps)
qed

lemma bytes_int_int_bytes: "bytes_int e (int_bytes e x) = x"
  by (cases e) (simp_all add: bytes_int_def int_bytes_def word32_of_bytes)

lemma length_int_bytes: "length (int_bytes e x) = 4"
  by (cases e) (simp_all add: int_bytes_def)

lemma c_string_id: "0 \<notin> set nm \<Longrightarrow> c_string nm = nm"
  by (auto simp: c_string_def takeWhile_eq_all_conv) 

lemma c_string_append_nul: "0 \<notin> set nm \<Longrightarrow> c_string (nm @ 0 # rest) = nm"
  by (induction nm) (auto simp: c_string_def)

lemma sint_word_of_nat_32:
  "n < 2 ^ 31 \<Longrightarrow> sint (word_of_nat n :: c_int) = int n"
  by (simp add: signed_of_nat signed_take_bit_int_eq_self)

subsection \<open>dgr\_findIndex and dgr\_set\<close>

lemma findIndex_from_none:
  "0 \<le> i \<Longrightarrow> (findIndex_from nm rs i = - 1) = (\<forall>r\<in>set rs. \<not> strcmp_eq nm (name r))"
  by (induction rs arbitrary: i) auto

lemma findIndex_from_range:
  "0 \<le> i \<Longrightarrow> findIndex_from nm rs i \<noteq> - 1 \<Longrightarrow>
     i \<le> findIndex_from nm rs i \<and> findIndex_from nm rs i < i + int (length rs)"
proof (induction rs arbitrary: i)
  case Nil
  then show ?case by simp
next
  case (Cons r rs)
  show ?case
  proof (cases "strcmp_eq nm (name r)")
    case True
    then show ?thesis by simp
  next
    case False
    with Cons.prems have "findIndex_from nm rs (i + 1) \<noteq> - 1" by simp
    with Cons.IH [of "i + 1"] Cons.prems(1) False show ?thesis by simp
  qed
qed


lemma memcpy_fresh:
  "0 \<le> sint sz \<Longrightarrow> nat (sint sz) \<le> length buf \<Longrightarrow>
     memcpy (replicate (nat (sint sz)) 0) buf sz = Inr (take (nat (sint sz)) buf)"
  by (simp add: memcpy_def)

lemma memcpy_exact:
  "0 \<le> sint sz \<Longrightarrow> nat (sint sz) \<le> length buf \<Longrightarrow> length dest = nat (sint sz) \<Longrightarrow>
     memcpy dest buf sz = Inr (take (nat (sint sz)) buf)"
  by (simp add: memcpy_def)

lemma dgr_set_new:
  assumes "dgr_disabled st = 0" and "dgr_findIndex st nm = - 1"
    and "length (dgr_list st) < 1024" and "strlen nm < 1024"
    and "0 \<le> sint sz" and "nat (sint sz) \<le> length buf"
  shows "dgr_set st nm buf sz =
    Inr (st\<lparr>dgr_list := dgr_list st @
           [\<lparr>name = c_string nm, size_r = sz, buffer = take (nat (sint sz)) buf\<rparr>]\<rparr>)"
  using assms
  by (simp add: dgr_set_def dgr_list_size_def DGR_MAX_LIST_SIZE_def malloc_def memcpy_fresh)

lemma dgr_set_existing:
  assumes "dgr_disabled st = 0" and "dgr_findIndex st nm = int k"
    and "0 \<le> sint sz" and "nat (sint sz) \<le> length buf"
    and "size_r (dgr_list st ! k) = sz \<Longrightarrow> length (buffer (dgr_list st ! k)) = nat (sint sz)"
  shows "dgr_set st nm buf sz =
    Inr (st\<lparr>dgr_list := (dgr_list st)
           [k := (dgr_list st ! k)\<lparr>size_r := sz, buffer := take (nat (sint sz)) buf\<rparr>]\<rparr>)"
proof (cases "size_r (dgr_list st ! k) = sz")
  case True
  then have eq: "(dgr_list st ! k)\<lparr>size_r := sz, buffer := take (nat (sint sz)) buf\<rparr> =
      (dgr_list st ! k)\<lparr>buffer := take (nat (sint sz)) buf\<rparr>"
    by (simp add: True [symmetric])
  show ?thesis
    unfolding eq using True assms by (simp add: dgr_set_def memcpy_exact)
next
  case False
  with assms show ?thesis
    by (simp add: dgr_set_def malloc_def memcpy_fresh)
qed

lemma dgr_findIndex_range:
  "dgr_findIndex st nm \<noteq> - 1 \<Longrightarrow>
     0 \<le> dgr_findIndex st nm \<and> nat (dgr_findIndex st nm) < length (dgr_list st)"
  using findIndex_from_range [of 0 nm "dgr_list st"] by (simp add: dgr_findIndex_def nat_less_iff)



lemma dgr_set_others:
  assumes "dgr_set st nm buf sz = Inr st'"
  shows "dgr_time_lastreceive st' = dgr_time_lastreceive st \<and> dgr_mode st' = dgr_mode st
     \<and> dgr_disabled st' = dgr_disabled st \<and> length (dgr_list st) \<le> length (dgr_list st')
     \<and> map name (take (length (dgr_list st)) (dgr_list st')) = map name (dgr_list st)"
proof (cases "dgr_disabled st \<noteq> 0 \<or> dgr_findIndex st nm = - 1")
  case True
  with assms show ?thesis
    by (auto simp: dgr_set_def split: if_splits option.splits sum.splits)
next
  case False
  then have ne: "dgr_findIndex st nm \<noteq> - 1" by simp
  have "map name ((dgr_list st)[nat (dgr_findIndex st nm) := r]) = map name (dgr_list st)"
    if "name r = name (dgr_list st ! nat (dgr_findIndex st nm))" for r
    using that dgr_findIndex_range [OF ne] by (simp add: map_update list_update_same_conv)
  with False assms show ?thesis
    by (auto simp: dgr_set_def Let_def split: if_splits option.splits sum.splits)
qed

subsection \<open>The codec\<close>

lemma read_record_wire:
  assumes "record_ok r"
  shows "read_record e (wire_record e r @ rest) = Inr (name r, size_r r, buffer r, rest)"
proof -
  from assms have nm: "0 \<notin> set (name r)" and len: "length (name r) < 1024"
    and sz: "0 \<le> sint (size_r r)" and buf: "length (buffer r) = nat (sint (size_r r))"
    by (simp_all add: record_ok_def)
  let ?tail = "int_bytes e (size_r r) @ buffer r @ rest"
  have w: "wire_record e r @ rest = name r @ 0 # ?tail"
    by (simp add: wire_record_def)
  have cs: "c_string (name r @ 0 # ?tail) = name r"
    using nm by (rule c_string_append_nul)
  have t4: "take 4 ?tail = int_bytes e (size_r r)" and d4: "drop 4 ?tail = buffer r @ rest"
    by (simp_all add: length_int_bytes)
  show ?thesis
    unfolding w read_record_def strlen_def cs
    using len sz buf by (simp add: t4 d4 bytes_int_int_bytes length_int_bytes)
qed

lemma length_wire_record: "length (wire_record e r) = length (name r) + 5 + length (buffer r)"
  by (simp add: wire_record_def length_int_bytes)

lemma wire_format_Cons: "wire_format e (r # rs) = wire_record e r @ wire_format e rs"
  by (simp add: wire_format_def)

lemma wire_format_Nil: "wire_format e [] = []"
  by (simp add: wire_format_def)

lemma parse_records_done: "remaining \<le> 0 \<Longrightarrow> parse_records e remaining rest = Inr []"
  by (subst parse_records.simps) simp

lemma unserialize_loop_done:
  "remaining \<le> 0 \<Longrightarrow> unserialize_loop e st remaining rest = Inr st"
  by (subst unserialize_loop.simps) simp

lemma unserialize_loop_fault:
  "0 < remaining \<Longrightarrow> read_record e rest = Inl f \<Longrightarrow>
     unserialize_loop e st remaining rest = Inl f"
  by (subst unserialize_loop.simps) simp

lemma unserialize_loop_step:
  "0 < remaining \<Longrightarrow> read_record e rest = Inr (nm, sz, data, rest') \<Longrightarrow>
     unserialize_loop e st remaining rest =
       (case dgr_set st nm data sz of
          Inl f \<Rightarrow> Inl f
        | Inr st' \<Rightarrow>
            unserialize_loop e st' (remaining - (int (length rest) - int (length rest'))) rest')"
  by (subst unserialize_loop.simps) simp

lemma parse_records_wire:
  "list_all record_ok rs \<Longrightarrow>
     parse_records e (int (length (wire_format e rs))) (wire_format e rs) =
       Inr (map (\<lambda>r. (name r, size_r r, buffer r)) rs)"
proof (induction rs)
  case Nil
  then show ?case by (simp add: wire_format_Nil parse_records_done)
next
  case (Cons r rs)
  then have ok: "record_ok r" and oks: "list_all record_ok rs" by simp_all
  have pos: "\<not> int (length (wire_format e (r # rs))) \<le> 0"
    by (simp add: wire_format_Cons length_wire_record)
  have rem: "int (length (wire_format e (r # rs))) -
      (int (length (wire_format e (r # rs))) - int (length (wire_format e rs))) =
      int (length (wire_format e rs))" by simp
  show ?case
    apply (subst parse_records.simps)
    apply (simp only: pos if_False)
    apply (simp only: wire_format_Cons read_record_wire [OF ok] sum.case prod.case)
    apply (simp only: wire_format_Cons [symmetric] rem Cons.IH [OF oks])
    apply simp
    done
qed

lemma unserialize_loop_parse:
  "parse_records e remaining rest = Inr recs \<Longrightarrow>
     unserialize_loop e st remaining rest = set_all st recs"
proof (induction e remaining rest arbitrary: st recs rule: parse_records.induct)
  case (1 e remaining rest)
  show ?case
  proof (cases "remaining \<le> 0")
    case True
    with "1.prems" show ?thesis by (simp add: parse_records_done unserialize_loop_done)
  next
    case False
    from "1.prems" False obtain nm sz data rest' recs' where
      rd: "read_record e rest = Inr (nm, sz, data, rest')" and
      ps: "parse_records e (remaining - (int (length rest) - int (length rest'))) rest' = Inr recs'" and
      recs: "recs = (nm, sz, data) # recs'"
      by (subst (asm) parse_records.simps) (auto split: sum.splits)
    show ?thesis
    proof (cases "dgr_set st nm data sz")
      case (Inl f)
      with False rd recs show ?thesis
        by (simp add: unserialize_loop_step)
    next
      case (Inr st')
      from "1.IH" [OF False rd refl refl refl ps]
      have "unserialize_loop e st' (remaining - (int (length rest) - int (length rest'))) rest' =
          set_all st' recs'" .
      with False rd recs Inr show ?thesis
        by (simp add: unserialize_loop_step)
    qed
  qed
qed

lemma c_string_append:
  "strlen rest < length rest \<Longrightarrow> c_string (rest @ tail) = c_string rest"
  unfolding strlen_def c_string_def
  by (induction rest) (auto split: if_splits)

lemma read_record_append:
  assumes "read_record e rest = Inr (nm, sz, data, rest')"
  shows "read_record e (rest @ tail) = Inr (nm, sz, data, rest' @ tail)"
proof -
  let ?c = "strlen rest"
  let ?rest1 = "drop (?c + 1) rest"
  let ?sz = "bytes_int e (take 4 ?rest1)"
  let ?rest2 = "drop 4 ?rest1"
  from assms have c: "?c < length rest" "?c < 1024" and l1: "4 \<le> length ?rest1"
    and sz: "0 \<le> sint ?sz" "nat (sint ?sz) \<le> length ?rest2"
    and res: "nm = c_string rest" "sz = ?sz" "data = take (nat (sint ?sz)) ?rest2"
      "rest' = drop (nat (sint ?sz)) ?rest2"
    by (auto simp: read_record_def Let_def split: if_splits)
  from c(1) have cs: "c_string (rest @ tail) = c_string rest" by (rule c_string_append)
  then have sl: "strlen (rest @ tail) = ?c" by (simp add: strlen_def)
  from c(1) have d1: "drop (?c + 1) (rest @ tail) = ?rest1 @ tail" by simp
  from l1 have t4: "take 4 (?rest1 @ tail) = take 4 ?rest1"
    and d4: "drop 4 (?rest1 @ tail) = ?rest2 @ tail" by simp_all
  from sz(2) have tk: "take (nat (sint ?sz)) (?rest2 @ tail) = take (nat (sint ?sz)) ?rest2"
    and dr: "drop (nat (sint ?sz)) (?rest2 @ tail) = drop (nat (sint ?sz)) ?rest2 @ tail"
    by simp_all
  show ?thesis
    unfolding read_record_def sl cs Let_def d1 t4 d4 tk dr
    using c l1 sz res by simp arith
qed

lemma unserialize_loop_parse_append:
  "parse_records e remaining rest = Inr recs \<Longrightarrow>
     unserialize_loop e st remaining (rest @ tail) = set_all st recs"
proof (induction e remaining rest arbitrary: st recs rule: parse_records.induct)
  case (1 e remaining rest)
  show ?case
  proof (cases "remaining \<le> 0")
    case True
    with "1.prems" show ?thesis by (simp add: parse_records_done unserialize_loop_done)
  next
    case False
    from "1.prems" False obtain nm sz data rest' recs' where
      rd: "read_record e rest = Inr (nm, sz, data, rest')" and
      ps: "parse_records e (remaining - (int (length rest) - int (length rest'))) rest' = Inr recs'" and
      recs: "recs = (nm, sz, data) # recs'"
      by (subst (asm) parse_records.simps) (auto split: sum.splits)
    from read_record_append [OF rd]
    have rd': "read_record e (rest @ tail) = Inr (nm, sz, data, rest' @ tail)" .
    have rem: "remaining - (int (length (rest @ tail)) - int (length (rest' @ tail))) =
        remaining - (int (length rest) - int (length rest'))" by simp
    show ?thesis
    proof (cases "dgr_set st nm data sz")
      case (Inl f)
      with False rd' recs show ?thesis
        by (simp add: unserialize_loop_step)
    next
      case (Inr st')
      from "1.IH" [OF False rd refl refl refl ps]
      have "unserialize_loop e st' (remaining - (int (length rest) - int (length rest')))
          (rest' @ tail) = set_all st' recs'" .
      with False rd' recs Inr rem show ?thesis
        by (simp add: unserialize_loop_step)
    qed
  qed
qed

lemma record_ok_c_string: "record_ok r \<Longrightarrow> c_string (name r) = name r"
  by (simp add: record_ok_def c_string_id)

lemma serialize_loop_wire:
  "list_all record_ok rs \<Longrightarrow> serialize_loop e rs out = Inr (out @ wire_format e rs)"
proof (induction rs arbitrary: out)
  case Nil
  then show ?case by (simp add: wire_format_Nil)
next
  case (Cons r rs)
  then have ok: "record_ok r" and oks: "list_all record_ok rs" by simp_all
  from ok have "0 \<le> sint (size_r r)" "length (buffer r) = nat (sint (size_r r))"
    by (simp_all add: record_ok_def)
  then show ?case
    by (simp add: Cons.IH [OF oks] record_ok_c_string [OF ok] wire_format_Cons wire_record_def)
qed

lemma space_needed_wire:
  "list_all record_ok rs \<Longrightarrow>
     space_needed rs spaceNeeded = spaceNeeded + word_of_nat (length (wire_format e rs))"
proof (induction rs arbitrary: spaceNeeded)
  case Nil
  then show ?case by (simp add: wire_format_Nil)
next
  case (Cons r rs)
  then have ok: "record_ok r" and oks: "list_all record_ok rs" by simp_all
  from ok have "word_of_nat (length (buffer r)) = size_r r"
    by (simp add: record_ok_def)
  then show ?case
    by (simp add: Cons.IH [OF oks] strlen_def record_ok_c_string [OF ok] wire_format_Cons
        length_wire_record)
qed

lemma dgr_serialize_wire:
  assumes "list_all record_ok (dgr_list st)"
    and "length (wire_format e (dgr_list st)) < 2 ^ 31"
  shows "dgr_serialize e st =
    Inr (word_of_nat (length (wire_format e (dgr_list st))), wire_format e (dgr_list st))"
proof -
  have sp: "space_needed (dgr_list st) 0 = word_of_nat (length (wire_format e (dgr_list st)))"
    using space_needed_wire [OF assms(1), of 0 e] by simp
  have si: "sint (word_of_nat (length (wire_format e (dgr_list st))) :: c_int) =
      int (length (wire_format e (dgr_list st)))"
    using assms(2) by (rule sint_word_of_nat_32)
  show ?thesis
    by (simp add: dgr_serialize_def sp malloc_def si serialize_loop_wire [OF assms(1)])
qed

lemma dgr_serialize_returns:
  assumes "list_all record_ok (dgr_list st)" and "dgr_serialize e st = Inr (n, bytes)"
  shows "length (wire_format e (dgr_list st)) < 2 ^ 31"
proof -
  let ?n = "space_needed (dgr_list st) 0"
  from assms(2) have pos: "0 \<le> sint ?n"
    and fits: "length (wire_format e (dgr_list st)) \<le> nat (sint ?n)"
    by (auto simp: dgr_serialize_def malloc_def serialize_loop_wire [OF assms(1)] Let_def
        split: if_splits)
  have "sint ?n < 2 ^ 31"
    using sint_lt [of ?n] by simp
  moreover from pos fits have "int (length (wire_format e (dgr_list st))) \<le> sint ?n"
    by simp
  ultimately have "int (length (wire_format e (dgr_list st))) < 2 ^ 31" by simp
  then show ?thesis by simp
qed

lemma strcmp_eq_ok:
  "0 \<notin> set a \<Longrightarrow> 0 \<notin> set b \<Longrightarrow> strcmp_eq a b = (a = b)"
  by (simp add: strcmp_eq_def c_string_id)

lemma set_all_fresh:
  assumes "dgr_disabled st = 0"
  shows "registry_ok (dgr_list st @ rs) \<Longrightarrow>
     set_all st (map (\<lambda>r. (name r, size_r r, buffer r)) rs) =
       Inr (st\<lparr>dgr_list := dgr_list st @ rs\<rparr>)"
  using assms
proof (induction rs arbitrary: st)
  case Nil
  then show ?case by simp
next
  case (Cons r rs)
  from Cons.prems have ok: "record_ok r" and all: "list_all record_ok (dgr_list st)"
    and fresh: "name r \<notin> name ` set (dgr_list st)"
    and len: "length (dgr_list st) < 1024"
    by (auto simp: registry_ok_def DGR_MAX_LIST_SIZE_def)
  from ok have nul: "0 \<notin> set (name r)" by (simp add: record_ok_def)
  have "\<forall>x\<in>set (dgr_list st). \<not> strcmp_eq (name r) (name x)"
  proof
    fix x assume x: "x \<in> set (dgr_list st)"
    with all have "0 \<notin> set (name x)" by (simp add: list_all_iff record_ok_def)
    with nul x fresh show "\<not> strcmp_eq (name r) (name x)"
      by (auto simp: strcmp_eq_ok)
  qed
  then have idx: "dgr_findIndex st (name r) = - 1"
    by (simp add: dgr_findIndex_def findIndex_from_none)
  from ok have sl: "strlen (name r) < 1024" and sz: "0 \<le> sint (size_r r)"
    and bl: "nat (sint (size_r r)) \<le> length (buffer r)"
    by (simp_all add: strlen_def record_ok_c_string record_ok_def)
  have rec: "\<lparr>name = c_string (name r), size_r = size_r r,
      buffer = take (nat (sint (size_r r))) (buffer r)\<rparr> = r"
    using ok by (simp add: record_ok_c_string record_ok_def)
  let ?st' = "st\<lparr>dgr_list := dgr_list st @ [r]\<rparr>"
  have step: "dgr_set st (name r) (buffer r) (size_r r) = Inr ?st'"
    using dgr_set_new [OF Cons.prems(2) idx len sl sz bl] by (simp only: rec)
  have "set_all ?st' (map (\<lambda>r. (name r, size_r r, buffer r)) rs) =
      Inr (?st'\<lparr>dgr_list := dgr_list ?st' @ rs\<rparr>)"
    using Cons.prems by (intro Cons.IH) simp_all
  with step show ?case by simp
qed

lemma dgr_unserialize_wire:
  assumes "list_all record_ok rs" and "length (wire_format e rs) < 2 ^ 31"
  shows "dgr_unserialize e st (word_of_nat (length (wire_format e rs))) (wire_format e rs) =
    set_all st (map (\<lambda>r. (name r, size_r r, buffer r)) rs)"
  unfolding dgr_unserialize_def sint_word_of_nat_32 [OF assms(2)]
  by (rule unserialize_loop_parse) (rule parse_records_wire [OF assms(1)])


subsection \<open>Round trip\<close>

text \<open>
  Claim C1. Take a registry as \<open>dgr_set\<close> builds it (at most 1024 records with distinct
  names, each name a C string of fewer than 1024 characters, each size non-negative and
  the length of the data) and an enabled session with an empty list. Whenever
  \<open>dgr_serialize\<close> of the registry returns a length and a block, \<open>dgr_unserialize\<close> of
  them on that session returns with exactly the records of the registry: name, size and
  data, in the same order. And \<open>dgr_serialize\<close> does return, the wire format of the
  registry with its length, when that length is below \<open>2 ^ 31\<close>, the range of its
  \<^verbatim>\<open>int *size\<close>.
\<close>

theorem serialize_unserialize_round_trip:
  assumes "registry_ok (dgr_list master)"
    and "dgr_disabled slave = 0" and "dgr_list slave = []"
  shows "(length (wire_format e (dgr_list master)) < 2 ^ 31 \<longrightarrow>
       dgr_serialize e master =
         Inr (word_of_nat (length (wire_format e (dgr_list master))),
              wire_format e (dgr_list master)))
    \<and> (\<forall>n bytes. dgr_serialize e master = Inr (n, bytes) \<longrightarrow>
         dgr_unserialize e slave n bytes = Inr (slave\<lparr>dgr_list := dgr_list master\<rparr>))"
proof -
  from assms(1) have ok: "list_all record_ok (dgr_list master)"
    by (simp add: registry_ok_def)
  from assms(1,3) have "registry_ok (dgr_list slave @ dgr_list master)" by simp
  from set_all_fresh [OF assms(2) this] assms(3)
  have all: "set_all slave (map (\<lambda>r. (name r, size_r r, buffer r)) (dgr_list master)) =
      Inr (slave\<lparr>dgr_list := dgr_list master\<rparr>)" by simp
  have "dgr_unserialize e slave n bytes = Inr (slave\<lparr>dgr_list := dgr_list master\<rparr>)"
    if ret: "dgr_serialize e master = Inr (n, bytes)" for n bytes
  proof -
    from dgr_serialize_returns [OF ok ret]
    have small: "length (wire_format e (dgr_list master)) < 2 ^ 31" .
    from ret dgr_serialize_wire [OF ok small]
    have "n = word_of_nat (length (wire_format e (dgr_list master)))"
      and "bytes = wire_format e (dgr_list master)" by auto
    with dgr_unserialize_wire [OF ok small, of slave] all show ?thesis by simp
  qed
  with dgr_serialize_wire [OF ok] show ?thesis by blast
qed

lemma two_records_ok:
  "registry_ok [\<lparr>name = [97], size_r = 1, buffer = [7]\<rparr>,
      \<lparr>name = [98, 99], size_r = 2, buffer = [1, 2]\<rparr>]"
  by (simp add: registry_ok_def record_ok_def DGR_MAX_LIST_SIZE_def)

theorem serialize_unserialize_round_trip_witness:
  "dgr_serialize LittleEndian
      \<lparr>dgr_list = [\<lparr>name = [97], size_r = 1, buffer = [7]\<rparr>,
                   \<lparr>name = [98, 99], size_r = 2, buffer = [1, 2]\<rparr>],
       dgr_time_lastreceive = 0, dgr_mode = 1, dgr_disabled = 0\<rparr> =
     Inr (16, [97, 0, 1, 0, 0, 0, 7, 98, 99, 0, 2, 0, 0, 0, 1, 2])
   \<and> dgr_unserialize LittleEndian initial_state 16
        [97, 0, 1, 0, 0, 0, 7, 98, 99, 0, 2, 0, 0, 0, 1, 2] =
     Inr \<lparr>dgr_list = [\<lparr>name = [97], size_r = 1, buffer = [7]\<rparr>,
                   \<lparr>name = [98, 99], size_r = 2, buffer = [1, 2]\<rparr>],
       dgr_time_lastreceive = 0, dgr_mode = 0, dgr_disabled = 0\<rparr>"
  using serialize_unserialize_round_trip [where e = LittleEndian and slave = initial_state and
      master = "\<lparr>dgr_list = [\<lparr>name = [97], size_r = 1, buffer = [7]\<rparr>,
                   \<lparr>name = [98, 99], size_r = 2, buffer = [1, 2]\<rparr>],
       dgr_time_lastreceive = 0, dgr_mode = 1, dgr_disabled = 0\<rparr>"]
    two_records_ok
  by (simp add: wire_format_def wire_record_def int_bytes_def initial_state_def)

text \<open>
  The bound on the length is needed. A registry of one record of \<open>2 ^ 31 - 1\<close> bytes is
  one that \<open>dgr_set\<close> builds, with a name within the limit and a size that is not
  negative; its wire format has \<open>2 ^ 31 + 5\<close> bytes, \<^verbatim>\<open>int spaceNeeded\<close> wraps to a
  negative number, \<^verbatim>\<open>malloc\<close> returns \<^verbatim>\<open>NULL\<close> and \<^verbatim>\<open>sprintf\<close> writes through it:
  \<open>dgr_serialize\<close> returns no byte stream to deserialize.
\<close>

theorem serialize_unserialize_round_trip_counterexample:
  "registry_ok [\<lparr>name = [120], size_r = 2147483647, buffer = replicate 2147483647 0\<rparr>]
   \<and> dgr_set (initial_state\<lparr>dgr_mode := 1\<rparr>) [120] (replicate 2147483647 0) 2147483647 =
       Inr (initial_state\<lparr>dgr_mode := 1, dgr_list :=
         [\<lparr>name = [120], size_r = 2147483647, buffer = replicate 2147483647 0\<rparr>]\<rparr>)
   \<and> dgr_serialize LittleEndian (initial_state\<lparr>dgr_mode := 1, dgr_list :=
         [\<lparr>name = [120], size_r = 2147483647, buffer = replicate 2147483647 0\<rparr>]\<rparr>) =
       Inl NullPointer"
proof -
  have s: "sint (2147483647 :: c_int) = 2147483647" by simp
  have a: "registry_ok [\<lparr>name = [120], size_r = 2147483647, buffer = replicate 2147483647 0\<rparr>]"
    by (simp add: registry_ok_def record_ok_def DGR_MAX_LIST_SIZE_def s)
  have b: "dgr_set (initial_state\<lparr>dgr_mode := 1\<rparr>) [120] (replicate 2147483647 0) 2147483647 =
       Inr (initial_state\<lparr>dgr_mode := 1, dgr_list :=
         [\<lparr>name = [120], size_r = 2147483647, buffer = replicate 2147483647 0\<rparr>]\<rparr>)"
    by (simp add: dgr_set_def dgr_findIndex_def initial_state_def dgr_list_size_def
        DGR_MAX_LIST_SIZE_def strlen_def c_string_def malloc_def memcpy_def s)
  have n: "sint (2147483653 :: c_int) < 0" by simp
  have c: "dgr_serialize LittleEndian (initial_state\<lparr>dgr_mode := 1, dgr_list :=
         [\<lparr>name = [120], size_r = 2147483647, buffer = replicate 2147483647 0\<rparr>]\<rparr>) =
       Inl NullPointer"
    by (simp add: dgr_serialize_def initial_state_def strlen_def c_string_def malloc_def n)
  from a b c show ?thesis by (intro conjI)
qed

subsection \<open>The wire format\<close>

lemma score_ok:
  "registry_ok [\<lparr>name = bytes_of ''score'', size_r = 4, buffer = int_bytes e 10\<rparr>]"
  by (simp add: registry_ok_def record_ok_def bytes_of_def length_int_bytes DGR_MAX_LIST_SIZE_def)

lemma score_wire:
  "wire_format e [\<lparr>name = bytes_of ''score'', size_r = 4, buffer = int_bytes e 10\<rparr>] =
     bytes_of ''score'' @ [0] @ int_bytes e 4 @ int_bytes e 10"
  by (simp add: wire_format_def wire_record_def)

lemma score_length:
  "length (bytes_of ''score'' @ [0] @ int_bytes e 4 @ int_bytes e 10) = 14"
  by (simp add: bytes_of_def length_int_bytes)

text \<open>
  Claim C6. For a registry of well-formed records, the block that \<open>dgr_serialize\<close> returns
  is exactly \<open>wire_format\<close>: for every record, in the order of the list, the bytes of the
  name, one byte 0x00, the size as four bytes in the byte order of the host, and the data;
  the length returned is the length of the block. It does return when that length is
  below \<open>2 ^ 31\<close>. In particular, after a master sets \<open>score\<close> to the
  four bytes of the integer 10, \<open>dgr_serialize\<close> returns the 14 bytes \<open>score\<close>, 0x00, the
  four bytes of 4 and the four bytes of 10; \<open>dgr_unserialize\<close> of these 14 bytes on a slave
  with an empty list stores the record, and \<open>dgr_get\<close> of \<open>score\<close> with a buffer of four
  bytes returns 4 and leaves the four bytes of 10 in the buffer.
\<close>

theorem dgr_serialize_wire_format:
  "(list_all record_ok (dgr_list st) \<longrightarrow>
      (\<forall>n bytes. dgr_serialize e st = Inr (n, bytes) \<longrightarrow>
         bytes = wire_format e (dgr_list st) \<and> sint n = int (length bytes)) \<and>
      (length (wire_format e (dgr_list st)) < 2 ^ 31 \<longrightarrow>
         dgr_serialize e st =
           Inr (word_of_nat (length (wire_format e (dgr_list st))),
                wire_format e (dgr_list st))))
   \<and> dgr_set (initial_state\<lparr>dgr_mode := 1\<rparr>) (bytes_of ''score'') (int_bytes e 10) 4 =
       Inr (initial_state\<lparr>dgr_mode := 1, dgr_list :=
         [\<lparr>name = bytes_of ''score'', size_r = 4, buffer = int_bytes e 10\<rparr>]\<rparr>)
   \<and> dgr_serialize e (initial_state\<lparr>dgr_mode := 1, dgr_list :=
         [\<lparr>name = bytes_of ''score'', size_r = 4, buffer = int_bytes e 10\<rparr>]\<rparr>) =
       Inr (14, bytes_of ''score'' @ [0] @ int_bytes e 4 @ int_bytes e 10)
   \<and> length (bytes_of ''score'' @ [0] @ int_bytes e 4 @ int_bytes e 10) = 14
   \<and> dgr_unserialize e initial_state 14
         (bytes_of ''score'' @ [0] @ int_bytes e 4 @ int_bytes e 10) =
       Inr (initial_state\<lparr>dgr_list :=
         [\<lparr>name = bytes_of ''score'', size_r = 4, buffer = int_bytes e 10\<rparr>]\<rparr>)
   \<and> (length buf4 = 4 \<longrightarrow>
       dgr_get (initial_state\<lparr>dgr_list :=
           [\<lparr>name = bytes_of ''score'', size_r = 4, buffer = int_bytes e 10\<rparr>]\<rparr>)
         (bytes_of ''score'') buf4 4 = Inr (4, int_bytes e 10))
   \<and> bytes_int e (int_bytes e 10) = 10"
proof -
  let ?score = "\<lparr>name = bytes_of ''score'', size_r = 4, buffer = int_bytes e 10\<rparr>"
  let ?bytes = "bytes_of ''score'' @ [0] @ int_bytes e 4 @ int_bytes e 10"
  have ok: "list_all record_ok [?score]"
    using score_ok [of e] by (simp add: registry_ok_def)
  have small: "length (wire_format e [?score]) < 2 ^ 31"
    by (simp only: score_wire score_length) simp
  have n: "(word_of_nat (length (wire_format e [?score])) :: c_int) = 14"
    by (simp only: score_wire score_length) simp
  have a: "dgr_set (initial_state\<lparr>dgr_mode := 1\<rparr>) (bytes_of ''score'') (int_bytes e 10) 4 =
      Inr (initial_state\<lparr>dgr_mode := 1, dgr_list := [?score]\<rparr>)"
    by (simp add: dgr_set_def dgr_findIndex_def initial_state_def dgr_list_size_def
        DGR_MAX_LIST_SIZE_def strlen_def c_string_def bytes_of_def malloc_def memcpy_def
        length_int_bytes)
  have b: "dgr_serialize e (initial_state\<lparr>dgr_mode := 1, dgr_list := [?score]\<rparr>) = Inr (14, ?bytes)"
    using dgr_serialize_wire [of "initial_state\<lparr>dgr_mode := 1, dgr_list := [?score]\<rparr>" e]
      ok small n by (simp add: score_wire)
  have "set_all initial_state (map (\<lambda>r. (name r, size_r r, buffer r)) [?score]) =
      Inr (initial_state\<lparr>dgr_list := dgr_list initial_state @ [?score]\<rparr>)"
    by (rule set_all_fresh) (simp_all add: initial_state_def score_ok)
  then have c: "dgr_unserialize e initial_state 14 ?bytes =
      Inr (initial_state\<lparr>dgr_list := [?score]\<rparr>)"
    using dgr_unserialize_wire [OF ok small, of initial_state] n
    by (simp add: score_wire initial_state_def)
  have d: "dgr_get (initial_state\<lparr>dgr_list := [?score]\<rparr>) (bytes_of ''score'') buf4 4 =
      Inr (4, int_bytes e 10)" if "length buf4 = 4"
    using that
    by (simp add: dgr_get_def dgr_findIndex_def initial_state_def strcmp_eq_def memcpy_def
        length_int_bytes)
  have g: "list_all record_ok (dgr_list st) \<longrightarrow>
      (\<forall>n bytes. dgr_serialize e st = Inr (n, bytes) \<longrightarrow>
         bytes = wire_format e (dgr_list st) \<and> sint n = int (length bytes)) \<and>
      (length (wire_format e (dgr_list st)) < 2 ^ 31 \<longrightarrow>
         dgr_serialize e st =
           Inr (word_of_nat (length (wire_format e (dgr_list st))),
                wire_format e (dgr_list st)))"
  proof (intro impI conjI allI)
    fix n bytes
    assume wf: "list_all record_ok (dgr_list st)" and ret: "dgr_serialize e st = Inr (n, bytes)"
    from dgr_serialize_returns [OF wf ret]
    have less: "length (wire_format e (dgr_list st)) < 2 ^ 31" .
    from ret dgr_serialize_wire [OF wf less]
    have n: "n = word_of_nat (length (wire_format e (dgr_list st)))"
      and b: "bytes = wire_format e (dgr_list st)" by auto
    from b show "bytes = wire_format e (dgr_list st)" .
    from n b sint_word_of_nat_32 [OF less] show "sint n = int (length bytes)" by simp
  next
    assume "list_all record_ok (dgr_list st)" "length (wire_format e (dgr_list st)) < 2 ^ 31"
    then show "dgr_serialize e st =
        Inr (word_of_nat (length (wire_format e (dgr_list st))), wire_format e (dgr_list st))"
      by (rule dgr_serialize_wire)
  qed
  have len: "length ?bytes = 14" by (rule score_length)
  have rt: "bytes_int e (int_bytes e 10) = 10" by (rule bytes_int_int_bytes)
  from d have d': "length buf4 = 4 \<longrightarrow>
      dgr_get (initial_state\<lparr>dgr_list := [?score]\<rparr>) (bytes_of ''score'') buf4 4 =
        Inr (4, int_bytes e 10)" by blast
  show ?thesis
    apply (intro conjI)
          apply (rule g)
         apply (rule a)
        apply (rule b)
       apply (rule len)
      apply (rule c)
     apply (rule d')
    apply (rule rt)
    done
qed

theorem dgr_serialize_wire_format_witness:
  "list_all record_ok [\<lparr>name = [97], size_r = 2, buffer = [5, 6]\<rparr>]
   \<and> dgr_serialize BigEndian \<lparr>dgr_list = [\<lparr>name = [97], size_r = 2, buffer = [5, 6]\<rparr>],
        dgr_time_lastreceive = 0, dgr_mode = 1, dgr_disabled = 0\<rparr> =
      Inr (8, [97, 0, 0, 0, 0, 2, 5, 6])
   \<and> dgr_get (initial_state\<lparr>dgr_list :=
           [\<lparr>name = bytes_of ''score'', size_r = 4, buffer = int_bytes BigEndian 10\<rparr>]\<rparr>)
         (bytes_of ''score'') [1, 2, 3, 4] 4 = Inr (4, [0, 0, 0, 10])"
proof -
  let ?m = "\<lparr>dgr_list = [\<lparr>name = [97], size_r = 2, buffer = [5, 6]\<rparr>],
        dgr_time_lastreceive = 0, dgr_mode = 1, dgr_disabled = 0\<rparr>"
  note t = dgr_serialize_wire_format [of ?m BigEndian "[1, 2, 3, 4]"]
  have ok: "list_all record_ok [\<lparr>name = [97], size_r = 2, buffer = [5, 6]\<rparr>]"
    by (simp add: record_ok_def)
  then have ok': "list_all record_ok (dgr_list ?m)" by simp
  have w: "wire_format BigEndian (dgr_list ?m) = [97, 0, 0, 0, 0, 2, 5, 6]"
    by (simp add: wire_format_def wire_record_def int_bytes_def)
  from t ok' have "length (wire_format BigEndian (dgr_list ?m)) < 2 ^ 31 \<longrightarrow>
      dgr_serialize BigEndian ?m =
        Inr (word_of_nat (length (wire_format BigEndian (dgr_list ?m))),
             wire_format BigEndian (dgr_list ?m))" by blast
  then have a: "dgr_serialize BigEndian ?m = Inr (8, [97, 0, 0, 0, 0, 2, 5, 6])"
    unfolding w by simp
  from t have "length [1, 2, 3, 4 :: byte] = 4 \<longrightarrow>
      dgr_get (initial_state\<lparr>dgr_list :=
           [\<lparr>name = bytes_of ''score'', size_r = 4, buffer = int_bytes BigEndian 10\<rparr>]\<rparr>)
         (bytes_of ''score'') [1, 2, 3, 4] 4 = Inr (4, int_bytes BigEndian 10)" by blast
  then have b: "dgr_get (initial_state\<lparr>dgr_list :=
           [\<lparr>name = bytes_of ''score'', size_r = 4, buffer = int_bytes BigEndian 10\<rparr>]\<rparr>)
         (bytes_of ''score'') [1, 2, 3, 4] 4 = Inr (4, [0, 0, 0, 10])"
    by (simp add: int_bytes_def)
  from ok a b show ?thesis by (intro conjI)
qed

subsection \<open>dgr\_get\<close>

lemma findIndex_from_lookup:
  assumes "list_all record_ok rs" and "0 \<le> i"
  shows "(case lookup rs (c_string nm) of
            None \<Rightarrow> findIndex_from nm rs i = - 1
          | Some r \<Rightarrow> findIndex_from nm rs i \<noteq> - 1 \<and> rs ! nat (findIndex_from nm rs i - i) = r)"
  using assms
proof (induction rs arbitrary: i)
  case Nil
  then show ?case by (simp add: lookup_def)
next
  case (Cons r rs)
  then have ok: "record_ok r" and oks: "list_all record_ok rs" by simp_all
  have eq: "strcmp_eq nm (name r) = (name r = c_string nm)"
    using ok by (auto simp: strcmp_eq_def record_ok_c_string)
  show ?case
  proof (cases "name r = c_string nm")
    case True
    with eq have hit: "strcmp_eq nm (name r)" by simp
    from True have "lookup (r # rs) (c_string nm) = Some r" by (simp add: lookup_def)
    with hit Cons.prems(2) show ?thesis by simp
  next
    case False
    from Cons.prems have i1: "0 \<le> i + 1" by simp
    note IH = Cons.IH [OF oks i1]
    show ?thesis
    proof (cases "lookup rs (c_string nm)")
      case None
      with IH False show ?thesis by (simp add: lookup_def eq)
    next
      case (Some r')
      with IH have ne: "findIndex_from nm rs (i + 1) \<noteq> - 1"
        and at: "rs ! nat (findIndex_from nm rs (i + 1) - (i + 1)) = r'" by simp_all
      from findIndex_from_range [OF i1 ne]
      have "nat (findIndex_from nm rs (i + 1) - i) =
          Suc (nat (findIndex_from nm rs (i + 1) - (i + 1)))" by linarith
      with Some False ne at show ?thesis by (simp add: lookup_def eq)
    qed
  qed
qed

lemma dgr_findIndex_absent:
  "list_all record_ok (dgr_list st) \<Longrightarrow> lookup (dgr_list st) (c_string nm) = None \<Longrightarrow>
     dgr_findIndex st nm = - 1"
  using findIndex_from_lookup [of "dgr_list st" 0 nm] by (simp add: dgr_findIndex_def)

lemma dgr_findIndex_present:
  "list_all record_ok (dgr_list st) \<Longrightarrow> lookup (dgr_list st) (c_string nm) = Some r \<Longrightarrow>
     dgr_findIndex st nm \<noteq> - 1 \<and> dgr_list st ! nat (dgr_findIndex st nm) = r"
  using findIndex_from_lookup [of "dgr_list st" 0 nm] by (simp add: dgr_findIndex_def)

lemma lookup_Some_set: "lookup rs nm = Some r \<Longrightarrow> r \<in> set rs \<and> name r = nm"
  unfolding lookup_def by (induction rs) (auto split: if_splits)

lemma memcpy_record:
  assumes "record_ok r" and "length (buffer r) \<le> length buf"
  shows "memcpy buf (buffer r) (size_r r) = Inr (buffer r @ drop (length (buffer r)) buf)"
  using assms by (simp add: memcpy_def record_ok_def)

text \<open>
  Claim C7. On an enabled session whose records are well formed, with a buffer of
  \<open>bufferSize\<close> bytes: if no record has the name, \<open>dgr_get\<close> returns -1 and the buffer is
  as it was; if the record of that name is larger than the buffer, it returns -2 and the
  buffer is as it was; otherwise it returns the size of the record, and the buffer starts
  with the bytes of the record, the bytes after them as they were. \<open>dgr_get\<close> has no
  state to return, and \<open>dgr_setget\<close> on a slave returns the state it was given.
\<close>

theorem dgr_get_cases:
  assumes "dgr_disabled st = 0" and "list_all record_ok (dgr_list st)"
    and "sint bufferSize = int (length buf)"
  shows "case lookup (dgr_list st) (c_string nm) of
      None \<Rightarrow>
        dgr_get st nm buf bufferSize = Inr (- 1, buf) \<and>
        (dgr_mode st = 0 \<longrightarrow> dgr_setget st nm buf bufferSize = Inr (st, buf))
    | Some r \<Rightarrow>
        if sint bufferSize < sint (size_r r)
        then dgr_get st nm buf bufferSize = Inr (- 2, buf) \<and>
          (dgr_mode st = 0 \<longrightarrow> dgr_setget st nm buf bufferSize = Inr (st, buf))
        else dgr_get st nm buf bufferSize =
            Inr (size_r r, buffer r @ drop (length (buffer r)) buf) \<and>
          sint (size_r r) = int (length (buffer r)) \<and>
          (dgr_mode st = 0 \<longrightarrow> dgr_setget st nm buf bufferSize =
            Inr (st, buffer r @ drop (length (buffer r)) buf))"
proof (cases "lookup (dgr_list st) (c_string nm)")
  case None
  from dgr_findIndex_absent [OF assms(2) None] assms(1) None show ?thesis
    by (simp add: dgr_get_def dgr_setget_def)
next
  case (Some r)
  from dgr_findIndex_present [OF assms(2) Some]
  have ne: "dgr_findIndex st nm \<noteq> - 1" and at: "dgr_list st ! nat (dgr_findIndex st nm) = r"
    by simp_all
  from lookup_Some_set [OF Some] assms(2) have ok: "record_ok r"
    by (simp add: list_all_iff)
  then have sz: "sint (size_r r) = int (length (buffer r))"
    by (simp add: record_ok_def)
  show ?thesis
  proof (cases "sint bufferSize < sint (size_r r)")
    case True
    with Some ne at assms(1) show ?thesis
      by (simp add: dgr_get_def dgr_setget_def)
  next
    case False
    with sz assms(3) have "length (buffer r) \<le> length buf" by simp
    from memcpy_record [OF ok this] False Some ne at sz assms(1) show ?thesis
      by (simp add: dgr_get_def dgr_setget_def)
  qed
qed

theorem dgr_get_cases_witness:
  "dgr_get (initial_state\<lparr>dgr_list := [\<lparr>name = [120], size_r = 3, buffer = [1, 2, 3]\<rparr>]\<rparr>)
      [110, 111, 112, 101] [9, 9] 2 = Inr (- 1, [9, 9])
   \<and> dgr_get (initial_state\<lparr>dgr_list := [\<lparr>name = [120], size_r = 3, buffer = [1, 2, 3]\<rparr>]\<rparr>)
      [120] [9, 9] 2 = Inr (- 2, [9, 9])
   \<and> dgr_get (initial_state\<lparr>dgr_list := [\<lparr>name = [120], size_r = 3, buffer = [1, 2, 3]\<rparr>]\<rparr>)
      [120] [9, 9, 9, 9] 4 = Inr (3, [1, 2, 3, 9])
   \<and> dgr_setget (initial_state\<lparr>dgr_list := [\<lparr>name = [120], size_r = 3, buffer = [1, 2, 3]\<rparr>]\<rparr>)
      [120] [9, 9, 9, 9] 4 =
     Inr (initial_state\<lparr>dgr_list := [\<lparr>name = [120], size_r = 3, buffer = [1, 2, 3]\<rparr>]\<rparr>,
          [1, 2, 3, 9])"
  using
    dgr_get_cases [of "initial_state\<lparr>dgr_list := [\<lparr>name = [120], size_r = 3, buffer = [1, 2, 3]\<rparr>]\<rparr>"
      2 "[9, 9]" "[110, 111, 112, 101]"]
    dgr_get_cases [of "initial_state\<lparr>dgr_list := [\<lparr>name = [120], size_r = 3, buffer = [1, 2, 3]\<rparr>]\<rparr>"
      2 "[9, 9]" "[120]"]
    dgr_get_cases [of "initial_state\<lparr>dgr_list := [\<lparr>name = [120], size_r = 3, buffer = [1, 2, 3]\<rparr>]\<rparr>"
      4 "[9, 9, 9, 9]" "[120]"]
  by (simp add: initial_state_def record_ok_def lookup_def c_string_def)

subsection \<open>Overwriting a record\<close>

lemma findIndex_from_names:
  "map name rs = map name rs' \<Longrightarrow> findIndex_from nm rs i = findIndex_from nm rs' i"
proof (induction rs arbitrary: rs' i)
  case Nil
  then show ?case by simp
next
  case (Cons r rs)
  then obtain r' rs'' where "rs' = r' # rs''" "name r = name r'" "map name rs = map name rs''"
    by (cases rs') auto
  with Cons.IH [of rs'' "i + 1"] show ?case by simp
qed

lemma record_ok_update:
  "record_ok old \<Longrightarrow> sint sz = int (length bytes) \<Longrightarrow>
     record_ok (old\<lparr>size_r := sz, buffer := bytes\<rparr>)"
  by (simp add: record_ok_def)

lemma list_all_update: "list_all P rs \<Longrightarrow> P x \<Longrightarrow> list_all P (rs[k := x])"
  using set_update_subset_insert [of rs k x] by (auto simp: list_all_iff)

text \<open>
  Claim C8. On an enabled session, \<open>dgr_set\<close> of a name that has a record, with
  \<open>sz\<close> bytes of data (\<open>sz\<close> equal to the old size or not), returns; the list keeps its
  length; the record of that name now has size \<open>sz\<close> and exactly the new bytes as its
  block; and \<open>dgr_get\<close> with a buffer of \<open>sz\<close> bytes or more returns \<open>sz\<close> and leaves
  exactly the new bytes at the start of the buffer, the bytes after them as the caller had
  them.
\<close>

theorem dgr_set_overwrite:
  assumes "dgr_disabled st = 0" and "list_all record_ok (dgr_list st)"
    and "lookup (dgr_list st) (c_string nm) = Some old"
    and "sint sz = int (length bytes)"
  shows "\<exists>st'. dgr_set st nm bytes sz = Inr st' \<and>
    length (dgr_list st') = length (dgr_list st) \<and>
    lookup (dgr_list st') (c_string nm) = Some (old\<lparr>size_r := sz, buffer := bytes\<rparr>) \<and>
    (\<forall>buf cap. sint cap = int (length buf) \<and> length bytes \<le> length buf \<longrightarrow>
       dgr_get st' nm buf cap = Inr (sz, bytes @ drop (length bytes) buf))"
proof -
  define k where "k = nat (dgr_findIndex st nm)"
  define new where "new = old\<lparr>size_r := sz, buffer := bytes\<rparr>"
  define st' where "st' = st\<lparr>dgr_list := (dgr_list st)[k := new]\<rparr>"
  from dgr_findIndex_present [OF assms(2,3)]
  have ne: "dgr_findIndex st nm \<noteq> - 1" and at: "dgr_list st ! k = old"
    by (simp_all add: k_def)
  from dgr_findIndex_range [OF ne] have idx: "dgr_findIndex st nm = int k" and k: "k < length (dgr_list st)"
    by (simp_all add: k_def)
  from lookup_Some_set [OF assms(3)] assms(2) have ok: "record_ok old" and nm: "name old = c_string nm"
    by (simp_all add: list_all_iff)
  from assms(4) have sz: "0 \<le> sint sz" and len: "nat (sint sz) \<le> length bytes"
    and tk: "take (nat (sint sz)) bytes = bytes" by simp_all
  have same: "size_r (dgr_list st ! k) = sz \<Longrightarrow> length (buffer (dgr_list st ! k)) = nat (sint sz)"
    using ok at by (auto simp: record_ok_def)
  have set: "dgr_set st nm bytes sz = Inr st'"
    using dgr_set_existing [OF assms(1) idx sz len same] by (simp add: st'_def new_def at tk)
  have names: "map name (dgr_list st') = map name (dgr_list st)"
    using k at nm by (simp add: st'_def new_def map_update list_update_same_conv)
  have ok': "list_all record_ok (dgr_list st')"
    using assms(2) record_ok_update [OF ok assms(4)] by (simp add: st'_def new_def list_all_update)
  have idx': "dgr_findIndex st' nm = int k"
    using findIndex_from_names [OF names] idx by (simp add: dgr_findIndex_def)
  have at': "dgr_list st' ! k = new"
    using k by (simp add: st'_def)
  have look: "lookup (dgr_list st') (c_string nm) = Some new"
  proof (cases "lookup (dgr_list st') (c_string nm)")
    case None
    from dgr_findIndex_absent [OF ok' None] idx' show ?thesis by simp
  next
    case (Some r)
    from dgr_findIndex_present [OF ok' Some] idx' at' Some show ?thesis by simp
  qed
  have get: "dgr_get st' nm buf cap = Inr (sz, bytes @ drop (length bytes) buf)"
    if "sint cap = int (length buf)" "length bytes \<le> length buf" for buf cap
    using that idx' at' assms(1,4)
    by (simp add: dgr_get_def st'_def new_def memcpy_def)
  from set look get show ?thesis
    by (auto simp: st'_def new_def)
qed

theorem dgr_set_overwrite_witness:
  "dgr_set (initial_state\<lparr>dgr_mode := 1\<rparr>) [120] [1, 2, 3, 4] 4 =
     Inr (initial_state\<lparr>dgr_mode := 1,
       dgr_list := [\<lparr>name = [120], size_r = 4, buffer = [1, 2, 3, 4]\<rparr>]\<rparr>)
   \<and> (\<exists>st'. dgr_set (initial_state\<lparr>dgr_mode := 1,
           dgr_list := [\<lparr>name = [120], size_r = 4, buffer = [1, 2, 3, 4]\<rparr>]\<rparr>) [120] [9, 8] 2 = Inr st'
       \<and> lookup (dgr_list st') [120] = Some \<lparr>name = [120], size_r = 2, buffer = [9, 8]\<rparr>
       \<and> dgr_get st' [120] [0, 0] 2 = Inr (2, [9, 8])
       \<and> dgr_get st' [120] [0, 0, 0, 0] 4 = Inr (2, [9, 8, 0, 0]))"
proof -
  have "dgr_set (initial_state\<lparr>dgr_mode := 1\<rparr>) [120] [1, 2, 3, 4] 4 =
     Inr (initial_state\<lparr>dgr_mode := 1,
       dgr_list := [\<lparr>name = [120], size_r = 4, buffer = [1, 2, 3, 4]\<rparr>]\<rparr>)"
    by (simp add: dgr_set_def dgr_findIndex_def initial_state_def dgr_list_size_def
        DGR_MAX_LIST_SIZE_def strlen_def c_string_def malloc_def memcpy_def)
  moreover have "\<exists>st'. dgr_set (initial_state\<lparr>dgr_mode := 1,
           dgr_list := [\<lparr>name = [120], size_r = 4, buffer = [1, 2, 3, 4]\<rparr>]\<rparr>) [120] [9, 8] 2 = Inr st'
       \<and> lookup (dgr_list st') [120] = Some \<lparr>name = [120], size_r = 2, buffer = [9, 8]\<rparr>
       \<and> dgr_get st' [120] [0, 0] 2 = Inr (2, [9, 8])
       \<and> dgr_get st' [120] [0, 0, 0, 0] 4 = Inr (2, [9, 8, 0, 0])"
    using dgr_set_overwrite [of "initial_state\<lparr>dgr_mode := 1,
           dgr_list := [\<lparr>name = [120], size_r = 4, buffer = [1, 2, 3, 4]\<rparr>]\<rparr>" "[120]"
           "\<lparr>name = [120], size_r = 4, buffer = [1, 2, 3, 4]\<rparr>" 2 "[9, 8]"]
    apply (simp add: initial_state_def record_ok_def lookup_def c_string_def)
    apply (erule exE)
    apply (rule_tac x = st' in exI)
    apply (elim conjE)
    apply (intro conjI)
       apply assumption
      apply assumption
     apply (drule_tac x = "[0, 0]" in spec, drule_tac x = 2 in spec, simp)
    apply (drule_tac x = "[0, 0, 0, 0]" in spec, drule_tac x = 4 in spec, simp)
    done
  ultimately show ?thesis by blast
qed

subsection \<open>Records that a packet does not name\<close>


subsection \<open>What a packet leaves in the registry\<close>

lemma lookup_append:
  "lookup (xs @ ys) nm = (case lookup xs nm of None \<Rightarrow> lookup ys nm | Some x \<Rightarrow> Some x)"
  unfolding lookup_def by (induction xs) auto

lemma lookup_single: "lookup [r] nm = (if name r = nm then Some r else None)"
  by (simp add: lookup_def)

lemma lookup_update_other:
  "k < length xs \<Longrightarrow> name x = name (xs ! k) \<Longrightarrow> nm \<noteq> name x \<Longrightarrow>
     lookup (xs[k := x]) nm = lookup xs nm"
proof (induction xs arbitrary: k)
  case Nil
  then show ?case by simp
next
  case (Cons y ys)
  then show ?case by (cases k) (auto simp: lookup_def)
qed

lemma lookup_at_index:
  assumes "list_all record_ok (dgr_list st)" and "dgr_findIndex st nm = int k"
  shows "lookup (dgr_list st) (c_string nm) = Some (dgr_list st ! k)"
proof (cases "lookup (dgr_list st) (c_string nm)")
  case None
  from dgr_findIndex_absent [OF assms(1) None] assms(2) show ?thesis by simp
next
  case (Some r)
  from dgr_findIndex_present [OF assms(1) Some] assms(2) Some show ?thesis by simp
qed

lemma dgr_set_stores:
  assumes en: "dgr_disabled st = 0" and ok: "list_all record_ok (dgr_list st)"
    and r: "record_ok r"
    and cap: "lookup (dgr_list st) (name r) \<noteq> None \<or> length (dgr_list st) < 1024"
  shows "\<exists>st'. dgr_set st (name r) (buffer r) (size_r r) = Inr st' \<and> dgr_disabled st' = 0 \<and>
    list_all record_ok (dgr_list st') \<and> lookup (dgr_list st') (name r) = Some r \<and>
    (\<forall>nm. nm \<noteq> name r \<longrightarrow> lookup (dgr_list st') nm = lookup (dgr_list st) nm) \<and>
    length (dgr_list st') \<le> Suc (length (dgr_list st))"
proof -
  from r have cs: "c_string (name r) = name r" by (rule record_ok_c_string)
  from r have sz: "0 \<le> sint (size_r r)" and bl: "nat (sint (size_r r)) \<le> length (buffer r)"
    and tk: "take (nat (sint (size_r r))) (buffer r) = buffer r"
    and sl: "strlen (name r) < 1024"
    by (simp_all add: record_ok_def strlen_def cs)
  show ?thesis
  proof (cases "lookup (dgr_list st) (name r)")
    case None
    with cap have len: "length (dgr_list st) < 1024" by simp
    from None have idx: "dgr_findIndex st (name r) = - 1"
      using dgr_findIndex_absent [OF ok, of "name r"] by (simp add: cs)
    have "dgr_set st (name r) (buffer r) (size_r r) = Inr (st\<lparr>dgr_list := dgr_list st @ [r]\<rparr>)"
      using dgr_set_new [OF en idx len sl sz bl] by (simp add: cs tk)
    moreover have "lookup (dgr_list st @ [r]) (name r) = Some r"
      using None by (simp add: lookup_append lookup_single)
    moreover have "lookup (dgr_list st @ [r]) nm = lookup (dgr_list st) nm" if "nm \<noteq> name r" for nm
      using that by (simp add: lookup_append lookup_single split: option.splits)
    ultimately show ?thesis using en ok r by simp
  next
    case (Some old)
    define k where "k = nat (dgr_findIndex st (name r))"
    from Some have Some': "lookup (dgr_list st) (c_string (name r)) = Some old" by (simp add: cs)
    from dgr_findIndex_present [OF ok Some']
    have ne: "dgr_findIndex st (name r) \<noteq> - 1" and at: "dgr_list st ! k = old"
      by (simp_all add: k_def)
    from dgr_findIndex_range [OF ne] have idx: "dgr_findIndex st (name r) = int k"
      and k: "k < length (dgr_list st)" by (simp_all add: k_def)
    from lookup_Some_set [OF Some] ok have okold: "record_ok old" and nm: "name old = name r"
      by (simp_all add: list_all_iff)
    have new: "old\<lparr>size_r := size_r r, buffer := buffer r\<rparr> = r"
      using nm by (cases old, cases r) simp
    define st' where "st' = st\<lparr>dgr_list := (dgr_list st)[k := r]\<rparr>"
    have same: "size_r (dgr_list st ! k) = size_r r \<Longrightarrow>
        length (buffer (dgr_list st ! k)) = nat (sint (size_r r))"
      using okold at by (auto simp: record_ok_def)
    have set: "dgr_set st (name r) (buffer r) (size_r r) = Inr st'"
      using dgr_set_existing [OF en idx sz bl same] by (simp add: st'_def at tk new)
    have names: "map name (dgr_list st') = map name (dgr_list st)"
      using k at nm by (simp add: st'_def map_update list_update_same_conv)
    have ok': "list_all record_ok (dgr_list st')"
      using ok r by (simp add: st'_def list_all_update)
    have idx': "dgr_findIndex st' (name r) = int k"
      using findIndex_from_names [OF names] idx by (simp add: dgr_findIndex_def)
    have look: "lookup (dgr_list st') (name r) = Some r"
      using lookup_at_index [OF ok' idx'] k by (simp add: cs st'_def)
    have other: "lookup (dgr_list st') nm = lookup (dgr_list st) nm" if "nm \<noteq> name r" for nm
      using lookup_update_other [OF k, of r nm] that at nm by (simp add: st'_def)
    from set look other ok' en show ?thesis by (auto simp: st'_def)
  qed
qed

lemma set_all_stores:
  assumes "dgr_disabled st = 0" and "list_all record_ok (dgr_list st)"
    and "list_all record_ok rs" and "distinct (map name rs)"
    and "length (dgr_list st) + length rs \<le> 1024"
  shows "\<exists>st'. set_all st (map (\<lambda>r. (name r, size_r r, buffer r)) rs) = Inr st' \<and>
    (\<forall>r\<in>set rs. lookup (dgr_list st') (name r) = Some r) \<and>
    (\<forall>nm. nm \<notin> name ` set rs \<longrightarrow> lookup (dgr_list st') nm = lookup (dgr_list st) nm)"
  using assms
proof (induction rs arbitrary: st)
  case Nil
  then show ?case by simp
next
  case (Cons r rs)
  from Cons.prems have r: "record_ok r" and rs: "list_all record_ok rs"
    and dist: "distinct (map name rs)" and fresh: "name r \<notin> name ` set rs"
    and cap: "length (dgr_list st) < 1024" by simp_all
  from dgr_set_stores [OF Cons.prems(1,2) r] cap obtain st1 where
    s1: "dgr_set st (name r) (buffer r) (size_r r) = Inr st1" and en1: "dgr_disabled st1 = 0"
    and ok1: "list_all record_ok (dgr_list st1)" and l1: "lookup (dgr_list st1) (name r) = Some r"
    and o1: "\<forall>nm. nm \<noteq> name r \<longrightarrow> lookup (dgr_list st1) nm = lookup (dgr_list st) nm"
    and len1: "length (dgr_list st1) \<le> Suc (length (dgr_list st))"
    by blast
  from len1 Cons.prems(5) have cap1: "length (dgr_list st1) + length rs \<le> 1024" by simp
  from Cons.IH [OF en1 ok1 rs dist cap1] obtain st' where
    s2: "set_all st1 (map (\<lambda>r. (name r, size_r r, buffer r)) rs) = Inr st'"
    and l2: "\<forall>r\<in>set rs. lookup (dgr_list st') (name r) = Some r"
    and o2: "\<forall>nm. nm \<notin> name ` set rs \<longrightarrow> lookup (dgr_list st') nm = lookup (dgr_list st1) nm"
    by blast
  from s1 s2 have "set_all st (map (\<lambda>r. (name r, size_r r, buffer r)) (r # rs)) = Inr st'"
    by simp
  moreover from fresh o2 l1 have "lookup (dgr_list st') (name r) = Some r" by simp
  moreover from o1 o2 have "\<forall>nm. nm \<notin> name ` set (r # rs) \<longrightarrow>
      lookup (dgr_list st') nm = lookup (dgr_list st) nm" by simp
  ultimately show ?case using l2 by auto
qed

subsection \<open>dgr\_unserialize merges\<close>








subsection \<open>dgr\_receive and dgr\_update on a slave\<close>

lemma receive_loop_newest:
  "\<not> recvfrom_fails w \<Longrightarrow> \<not> poll_fails w \<Longrightarrow> pending w = older @ [newest] \<Longrightarrow>
     length newest \<le> 1024 * 1024 \<Longrightarrow>
     \<exists>stale. receive_loop w serialized =
       Inr (word_of_nat (length newest), newest @ stale, w\<lparr>pending := []\<rparr>)"
proof (induction older arbitrary: w serialized)
  case Nil
  then show ?case
    by (subst receive_loop.simps) (simp add: recvfrom_def poll_def)
next
  case (Cons p older)
  let ?w = "w\<lparr>pending := older @ [newest]\<rparr>"
  let ?s = "take (1024 * 1024) p @ drop (length (take (1024 * 1024) p)) serialized"
  from Cons.prems have "\<exists>stale. receive_loop ?w ?s =
      Inr (word_of_nat (length newest), newest @ stale, ?w\<lparr>pending := []\<rparr>)"
    by (intro Cons.IH) simp_all
  then obtain stale where "receive_loop ?w ?s =
      Inr (word_of_nat (length newest), newest @ stale, w\<lparr>pending := []\<rparr>)" by auto
  with Cons.prems have "receive_loop w serialized =
      Inr (word_of_nat (length newest), newest @ stale, w\<lparr>pending := []\<rparr>)"
    by (subst receive_loop.simps) (simp add: recvfrom_def poll_def)
  then show ?case by blast
qed

lemma receive_loop_clock:
  "receive_loop w serialized = Inr (numbytes, serialized', w') \<Longrightarrow> clock w' = clock w"
proof (induction w serialized rule: receive_loop.induct)
  case (1 w serialized)
  show ?case
  proof (cases "recvfrom w serialized (1024 * 1024)")
    case (Inl f)
    with "1.prems" show ?thesis
      by (subst (asm) receive_loop.simps) simp
  next
    case (Inr x)
    then obtain n s1 w1 where rf: "recvfrom w serialized (1024 * 1024) = Inr (n, s1, w1)"
      by (cases x) auto
    then have c1: "clock w1 = clock w"
      by (auto simp: recvfrom_def split: if_splits list.splits)
    show ?thesis
    proof (cases "n = - 1 \<or> poll w1 0 = 0")
      case True
      with "1.prems" rf c1 show ?thesis
        by (subst (asm) receive_loop.simps) (auto split: if_splits)
    next
      case False
      with "1.prems" rf have "receive_loop w1 s1 = Inr (numbytes, serialized', w')"
        by (subst (asm) receive_loop.simps) simp
      with "1.IH" [OF rf refl refl] False c1 show ?thesis by simp
    qed
  qed
qed

lemma unserialize_loop_others:
  "unserialize_loop e st remaining rest = Inr st' \<Longrightarrow>
     dgr_time_lastreceive st' = dgr_time_lastreceive st \<and> dgr_mode st' = dgr_mode st \<and>
     dgr_disabled st' = dgr_disabled st"
proof (induction e st remaining rest rule: unserialize_loop.induct)
  case (1 e st remaining rest)
  show ?case
  proof (cases "remaining \<le> 0")
    case True
    with "1.prems" show ?thesis by (simp add: unserialize_loop_done)
  next
    case False
    then have pos: "0 < remaining" by simp
    show ?thesis
    proof (cases "read_record e rest")
      case (Inl f)
      with "1.prems" pos show ?thesis by (simp add: unserialize_loop_fault)
    next
      case (Inr x)
      then obtain nm sz data rest' where rd: "read_record e rest = Inr (nm, sz, data, rest')"
        by (cases x) auto
      show ?thesis
      proof (cases "dgr_set st nm data sz")
        case (Inl f)
        with "1.prems" pos rd show ?thesis by (simp add: unserialize_loop_step)
      next
        case (Inr st1)
        with "1.prems" pos rd
        have "unserialize_loop e st1 (remaining - (int (length rest) - int (length rest'))) rest' =
            Inr st'" by (simp add: unserialize_loop_step)
        from "1.IH" [OF False rd refl refl refl Inr this] dgr_set_others [OF Inr]
        show ?thesis by simp
      qed
    qed
  qed
qed


lemma dgr_update_newest:
  assumes "dgr_mode st = 0" and "dgr_disabled st = 0"
    and "\<not> poll_fails w" and "\<not> recvfrom_fails w"
    and "dgr_time_lastreceive st = 0 \<or> clock w - dgr_time_lastreceive st < 15"
    and "pending w = older @ [newest]" and "length newest \<le> 1024 * 1024"
    and "parse_records e (int (length newest)) newest = Inr recs"
  shows "dgr_update e st w =
    (case set_all (st\<lparr>dgr_time_lastreceive := clock w\<rparr>) recs of
       Inl f \<Rightarrow> Inl f
     | Inr st' \<Rightarrow> Inr (st', w\<lparr>pending := []\<rparr>))"
proof -
  from assms(3,6) have p: "poll w timeout = 1" for timeout
    by (simp add: poll_def)
  from assms(5) have live: "\<not> (dgr_time_lastreceive st \<noteq> 0 \<and> 15 \<le> clock w - dgr_time_lastreceive st)"
    by auto
  from receive_loop_newest [OF assms(4,3,6,7)] obtain stale where
    lp: "receive_loop w [] = Inr (word_of_nat (length newest), newest @ stale, w\<lparr>pending := []\<rparr>)"
    by blast
  from assms(7) have "length newest < 2 ^ 31" by simp
  then have n: "sint (word_of_nat (length newest) :: c_int) = int (length newest)"
    by (rule sint_word_of_nat_32)
  have un: "dgr_unserialize e st0 (word_of_nat (length newest)) (newest @ stale) = set_all st0 recs"
    for st0
    unfolding dgr_unserialize_def n by (rule unserialize_loop_parse_append) (rule assms(8))
  have "dgr_receive e st w timeout =
    (case set_all (st\<lparr>dgr_time_lastreceive := clock w\<rparr>) recs of
       Inl f \<Rightarrow> Inl f
     | Inr st' \<Rightarrow> Inr (st', w\<lparr>pending := []\<rparr>))" for timeout
    unfolding dgr_receive_def
    by (simp add: assms(2) live p lp un)
  with assms(1) show ?thesis by (simp add: dgr_update_def)
qed

lemma dgr_update_nothing:
  assumes "dgr_mode st = 0" and "dgr_disabled st = 0" and "\<not> poll_fails w"
    and "dgr_time_lastreceive st \<noteq> 0" and "clock w - dgr_time_lastreceive st < 15"
    and "pending w = []"
  shows "dgr_update e st w = Inr (st, w)"
  using assms by (simp add: dgr_update_def dgr_receive_def poll_def)


text \<open>
  The newest datagram wins when it parses within its own bytes. A call of \<open>dgr_update\<close>
  on an enabled slave whose liveness check passes
  and whose \<^verbatim>\<open>poll\<close> and \<^verbatim>\<open>recvfrom\<close> do not fail:
  \<^item> with the datagrams \<open>older @ [newest]\<close> to read, where \<open>newest\<close> parses within its
    own bytes into the records \<open>recs\<close>, it is \<open>dgr_set\<close> of the records of \<open>newest\<close>
    alone (with the time of the receive stored), whatever \<open>older\<close> holds, and it empties
    the socket;
  \<^item> if \<open>newest\<close> is the wire format of a registry \<open>rs\<close> and the list has room for its
    records, the call returns, every record of \<open>rs\<close> is then the record of its name in the
    list, and the lookup of every other name is as it was;
  \<^item> with nothing to read, on a slave that has received before, it returns the state
    and the socket as they were.
\<close>

theorem dgr_update_newest_packet_wins:
  assumes "dgr_mode st = 0" and "dgr_disabled st = 0"
    and "\<not> poll_fails w" and "\<not> recvfrom_fails w"
    and "dgr_time_lastreceive st = 0 \<or> clock w - dgr_time_lastreceive st < 15"
  shows "(pending w = older @ [newest] \<and> length newest \<le> 1024 * 1024 \<and>
        parse_records e (int (length newest)) newest = Inr recs \<longrightarrow>
      dgr_update e st w =
        (case set_all (st\<lparr>dgr_time_lastreceive := clock w\<rparr>) recs of
           Inl f \<Rightarrow> Inl f
         | Inr st' \<Rightarrow> Inr (st', w\<lparr>pending := []\<rparr>)))
    \<and> (pending w = older @ [wire_format e rs] \<and> registry_ok rs \<and>
        length (wire_format e rs) \<le> 1024 * 1024 \<and>
        list_all record_ok (dgr_list st) \<and> length (dgr_list st) + length rs \<le> 1024 \<longrightarrow>
      (\<exists>st'. dgr_update e st w = Inr (st', w\<lparr>pending := []\<rparr>) \<and>
         (\<forall>r\<in>set rs. lookup (dgr_list st') (name r) = Some r) \<and>
         (\<forall>nm. nm \<notin> name ` set rs \<longrightarrow> lookup (dgr_list st') nm = lookup (dgr_list st) nm)))
    \<and> (pending w = [] \<and> dgr_time_lastreceive st \<noteq> 0 \<longrightarrow> dgr_update e st w = Inr (st, w))"
proof (intro conjI impI)
  assume "pending w = older @ [newest] \<and> length newest \<le> 1024 * 1024 \<and>
        parse_records e (int (length newest)) newest = Inr recs"
  with assms show "dgr_update e st w =
        (case set_all (st\<lparr>dgr_time_lastreceive := clock w\<rparr>) recs of
           Inl f \<Rightarrow> Inl f
         | Inr st' \<Rightarrow> Inr (st', w\<lparr>pending := []\<rparr>))"
    by (intro dgr_update_newest) auto
next
  assume a: "pending w = older @ [wire_format e rs] \<and> registry_ok rs \<and>
        length (wire_format e rs) \<le> 1024 * 1024 \<and>
        list_all record_ok (dgr_list st) \<and> length (dgr_list st) + length rs \<le> 1024"
  let ?st = "st\<lparr>dgr_time_lastreceive := clock w\<rparr>"
  from a have pend: "pending w = older @ [wire_format e rs]" and ok: "list_all record_ok rs"
    and dist: "distinct (map name rs)" and short: "length (wire_format e rs) \<le> 1024 * 1024"
    and okst: "list_all record_ok (dgr_list ?st)"
    and cap: "length (dgr_list ?st) + length rs \<le> 1024"
    by (simp_all add: registry_ok_def)
  from assms(2) have en: "dgr_disabled ?st = 0" by simp
  from set_all_stores [OF en okst ok dist cap] obtain st' where
    s: "set_all ?st (map (\<lambda>r. (name r, size_r r, buffer r)) rs) = Inr st'"
    and l: "\<forall>r\<in>set rs. lookup (dgr_list st') (name r) = Some r"
    and o: "\<forall>nm. nm \<notin> name ` set rs \<longrightarrow> lookup (dgr_list st') nm = lookup (dgr_list ?st) nm"
    by blast
  have "dgr_update e st w = Inr (st', w\<lparr>pending := []\<rparr>)"
    unfolding dgr_update_newest [OF assms pend short parse_records_wire [OF ok]] s
    by simp
  with l o show "\<exists>st'. dgr_update e st w = Inr (st', w\<lparr>pending := []\<rparr>) \<and>
         (\<forall>r\<in>set rs. lookup (dgr_list st') (name r) = Some r) \<and>
         (\<forall>nm. nm \<notin> name ` set rs \<longrightarrow> lookup (dgr_list st') nm = lookup (dgr_list st) nm)"
    by auto
next
  assume "pending w = [] \<and> dgr_time_lastreceive st \<noteq> 0"
  with assms show "dgr_update e st w = Inr (st, w)"
    by (intro dgr_update_nothing) auto
qed

theorem dgr_update_newest_packet_wins_witness:
  "dgr_update LittleEndian initial_state
      \<lparr>clock = 100,
       pending = [[65, 0, 1, 0, 0, 0, 1, 66, 0, 1, 0, 0, 0, 1],
                  [65, 0, 1, 0, 0, 0, 2, 66, 0, 1, 0, 0, 0, 2],
                  [65, 0, 1, 0, 0, 0, 3, 66, 0, 1, 0, 0, 0, 3]],
       poll_fails = False, recvfrom_fails = False, sendto_accepts = None, sent = []\<rparr> =
     Inr (\<lparr>dgr_list = [\<lparr>name = [65], size_r = 1, buffer = [3]\<rparr>,
                        \<lparr>name = [66], size_r = 1, buffer = [3]\<rparr>],
           dgr_time_lastreceive = 100, dgr_mode = 0, dgr_disabled = 0\<rparr>,
          \<lparr>clock = 100, pending = [], poll_fails = False, recvfrom_fails = False,
           sendto_accepts = None, sent = []\<rparr>)
   \<and> dgr_update LittleEndian
      \<lparr>dgr_list = [\<lparr>name = [65], size_r = 1, buffer = [3]\<rparr>,
                   \<lparr>name = [66], size_r = 1, buffer = [3]\<rparr>],
       dgr_time_lastreceive = 100, dgr_mode = 0, dgr_disabled = 0\<rparr>
      \<lparr>clock = 101, pending = [], poll_fails = False, recvfrom_fails = False,
       sendto_accepts = None, sent = []\<rparr> =
     Inr (\<lparr>dgr_list = [\<lparr>name = [65], size_r = 1, buffer = [3]\<rparr>,
                        \<lparr>name = [66], size_r = 1, buffer = [3]\<rparr>],
           dgr_time_lastreceive = 100, dgr_mode = 0, dgr_disabled = 0\<rparr>,
          \<lparr>clock = 101, pending = [], poll_fails = False, recvfrom_fails = False,
           sendto_accepts = None, sent = []\<rparr>)"
proof -
  let ?rs = "[\<lparr>name = [65], size_r = 1, buffer = [3]\<rparr>, \<lparr>name = [66], size_r = 1, buffer = [3]\<rparr>]"
  let ?st1 = "\<lparr>dgr_list = ?rs, dgr_time_lastreceive = 100, dgr_mode = 0, dgr_disabled = 0\<rparr>"
  let ?P3 = "[65, 0, 1, 0, 0, 0, 3, 66, 0, 1, 0, 0, 0, 3] :: byte list"
  have ok: "registry_ok ?rs"
    by (simp add: registry_ok_def record_ok_def DGR_MAX_LIST_SIZE_def)
  then have oks: "list_all record_ok ?rs" by (simp add: registry_ok_def)
  have wire: "wire_format LittleEndian ?rs = ?P3"
    by (simp add: wire_format_def wire_record_def int_bytes_def)
  have parse: "parse_records LittleEndian (int (length ?P3)) ?P3 =
      Inr [([65], 1, [3]), ([66], 1, [3])]"
    using parse_records_wire [OF oks, of LittleEndian] by (simp add: wire)
  have sets: "set_all (initial_state\<lparr>dgr_time_lastreceive := 100\<rparr>)
      [([65], 1, [3]), ([66], 1, [3])] = Inr ?st1"
    using set_all_fresh [of "initial_state\<lparr>dgr_time_lastreceive := 100\<rparr>" ?rs] ok
    by (simp add: initial_state_def)
  let ?w = "\<lparr>clock = 100,
          pending = [[65, 0, 1, 0, 0, 0, 1, 66, 0, 1, 0, 0, 0, 1],
                     [65, 0, 1, 0, 0, 0, 2, 66, 0, 1, 0, 0, 0, 2],
                     [65, 0, 1, 0, 0, 0, 3, 66, 0, 1, 0, 0, 0, 3]],
          poll_fails = False, recvfrom_fails = False, sendto_accepts = None, sent = []\<rparr>"
  let ?w2 = "\<lparr>clock = 101, pending = [], poll_fails = False, recvfrom_fails = False,
          sendto_accepts = None, sent = []\<rparr>"
  have "pending ?w = [[65, 0, 1, 0, 0, 0, 1, 66, 0, 1, 0, 0, 0, 1],
        [65, 0, 1, 0, 0, 0, 2, 66, 0, 1, 0, 0, 0, 2]] @ [?P3] \<and> length ?P3 \<le> 1024 * 1024 \<and>
      parse_records LittleEndian (int (length ?P3)) ?P3 = Inr [([65], 1, [3]), ([66], 1, [3])]"
    using parse by simp
  with dgr_update_newest_packet_wins [where st = initial_state and e = LittleEndian and
        w = ?w and newest = ?P3 and recs = "[([65], 1, [3]), ([66], 1, [3])]" and
        older = "[[65, 0, 1, 0, 0, 0, 1, 66, 0, 1, 0, 0, 0, 1],
          [65, 0, 1, 0, 0, 0, 2, 66, 0, 1, 0, 0, 0, 2]]"]
  have "dgr_update LittleEndian initial_state ?w =
      (case set_all (initial_state\<lparr>dgr_time_lastreceive := clock ?w\<rparr>)
          [([65], 1, [3]), ([66], 1, [3])] of
         Inl f \<Rightarrow> Inl f
       | Inr st' \<Rightarrow> Inr (st', ?w\<lparr>pending := []\<rparr>))"
    by (simp add: initial_state_def del: set_all.simps)
  then have a: "dgr_update LittleEndian initial_state ?w = Inr (?st1, ?w\<lparr>pending := []\<rparr>)"
    by (simp add: sets del: set_all.simps)
  have b: "dgr_update LittleEndian ?st1 ?w2 = Inr (?st1, ?w2)"
    using dgr_update_newest_packet_wins [where st = ?st1 and e = LittleEndian and w = ?w2]
    by simp
  from a b show ?thesis by simp
qed

text \<open>
  Claim C3 fails on the code. The drain keeps one array for every datagram: \<^verbatim>\<open>recvfrom\<close> writes the newest
  datagram over the beginning of it and the bytes of a longer, older datagram stay behind
  it. With the datagram \<^verbatim>\<open>A = 1, B = 1\<close> queued first and then a datagram of 13 bytes,
  \<^verbatim>\<open>A = 2\<close> followed by the name \<^verbatim>\<open>B\<close> and the size 1 with its data byte missing,
  \<open>dgr_update\<close> stores \<^verbatim>\<open>B = 1\<close>: the data byte of the older datagram, which the newest
  one does not hold, is applied to the registry.
\<close>

theorem dgr_update_applies_older_datagram:
  "dgr_update LittleEndian initial_state
       \<lparr>clock = 100,
        pending = [[65, 0, 1, 0, 0, 0, 1, 66, 0, 1, 0, 0, 0, 1],
                   [65, 0, 1, 0, 0, 0, 2, 66, 0, 1, 0, 0, 0]],
        poll_fails = False, recvfrom_fails = False, sendto_accepts = None, sent = []\<rparr> =
     Inr (\<lparr>dgr_list = [\<lparr>name = [65], size_r = 1, buffer = [2]\<rparr>,
                        \<lparr>name = [66], size_r = 1, buffer = [1]\<rparr>],
           dgr_time_lastreceive = 100, dgr_mode = 0, dgr_disabled = 0\<rparr>,
          \<lparr>clock = 100, pending = [], poll_fails = False, recvfrom_fails = False,
           sendto_accepts = None, sent = []\<rparr>)"
proof -
  let ?w = "\<lparr>clock = 100,
        pending = [[65, 0, 1, 0, 0, 0, 1, 66, 0, 1, 0, 0, 0, 1],
                   [65, 0, 1, 0, 0, 0, 2, 66, 0, 1, 0, 0, 0]],
        poll_fails = False, recvfrom_fails = False, sendto_accepts = None, sent = []\<rparr>"
  have lp: "receive_loop ?w [] =
      Inr (13, [65, 0, 1, 0, 0, 0, 2, 66, 0, 1, 0, 0, 0, 1], ?w\<lparr>pending := []\<rparr>)"
    by (simp add: receive_loop.simps recvfrom_def poll_def)
  have rd1: "read_record LittleEndian [65, 0, 1, 0, 0, 0, 2, 66, 0, 1, 0, 0, 0, 1] =
      Inr ([65], 1, [2], [66, 0, 1, 0, 0, 0, 1])"
    by (simp add: read_record_def strlen_def c_string_def bytes_int_def)
  have rd2: "read_record LittleEndian [66, 0, 1, 0, 0, 0, 1] = Inr ([66], 1, [1], [])"
    by (simp add: read_record_def strlen_def c_string_def bytes_int_def)
  have un: "dgr_unserialize LittleEndian (initial_state\<lparr>dgr_time_lastreceive := 100\<rparr>) 13
      [65, 0, 1, 0, 0, 0, 2, 66, 0, 1, 0, 0, 0, 1] =
      Inr \<lparr>dgr_list = [\<lparr>name = [65], size_r = 1, buffer = [2]\<rparr>,
                        \<lparr>name = [66], size_r = 1, buffer = [1]\<rparr>],
           dgr_time_lastreceive = 100, dgr_mode = 0, dgr_disabled = 0\<rparr>"
    by (simp add: dgr_unserialize_def unserialize_loop_step [OF _ rd1]
        unserialize_loop_step [OF _ rd2] unserialize_loop_done
        dgr_set_def dgr_findIndex_def initial_state_def dgr_list_size_def DGR_MAX_LIST_SIZE_def
        strlen_def strcmp_eq_def c_string_def malloc_def memcpy_def)
  show ?thesis
    by (simp add: dgr_update_def dgr_receive_def poll_def lp un)
      (simp add: initial_state_def)
qed

text \<open>
  Claim C4. On an enabled slave, \<open>dgr_update\<close>
  \<^item> exits, whatever the socket holds, when a packet was received before
    (\<open>dgr_time_lastreceive\<close> is not 0) and 15 seconds or more have passed since;
  \<^item> exits when no packet was ever received and nothing arrives within the timeout of
    10000 milliseconds that \<open>dgr_update\<close> gives \<open>dgr_receive\<close>;
  \<^item> having returned from a receive at a time \<open>clock w\<close> other than 0, has stored that
    time, and the next call 15 seconds or more later exits.
\<close>

theorem liveness_timeouts:
  "(dgr_mode st = 0 \<and> dgr_disabled st = 0 \<and> dgr_time_lastreceive st \<noteq> 0 \<and>
      15 \<le> clock w - dgr_time_lastreceive st \<longrightarrow>
        dgr_update e st w = Inl (Exit (NoPacketsWithin 15)))
   \<and> (dgr_mode st = 0 \<and> dgr_disabled st = 0 \<and> dgr_time_lastreceive st = 0 \<and>
      pending w = [] \<and> \<not> poll_fails w \<longrightarrow>
        dgr_update e st w = Inl (Exit (ReceiveTimedOut 10000)))
   \<and> (dgr_mode st = 0 \<and> dgr_disabled st = 0 \<and> pending w \<noteq> [] \<and> clock w \<noteq> 0 \<and>
      dgr_update e st w = Inr (st', w') \<and> 15 \<le> clock w2 - clock w \<longrightarrow>
        dgr_time_lastreceive st' = clock w \<and>
        dgr_update e st' w2 = Inl (Exit (NoPacketsWithin 15)))"
proof (intro conjI impI)
  assume "dgr_mode st = 0 \<and> dgr_disabled st = 0 \<and> dgr_time_lastreceive st \<noteq> 0 \<and>
      15 \<le> clock w - dgr_time_lastreceive st"
  then show "dgr_update e st w = Inl (Exit (NoPacketsWithin 15))"
    by (simp add: dgr_update_def dgr_receive_def)
next
  assume "dgr_mode st = 0 \<and> dgr_disabled st = 0 \<and> dgr_time_lastreceive st = 0 \<and>
      pending w = [] \<and> \<not> poll_fails w"
  then show "dgr_update e st w = Inl (Exit (ReceiveTimedOut 10000))"
    by (simp add: dgr_update_def dgr_receive_def poll_def)
next
  assume a: "dgr_mode st = 0 \<and> dgr_disabled st = 0 \<and> pending w \<noteq> [] \<and> clock w \<noteq> 0 \<and>
      dgr_update e st w = Inr (st', w') \<and> 15 \<le> clock w2 - clock w"
  then have upd: "dgr_update e st w = Inr (st', w')" by simp
  from a have rc: "dgr_receive e st w (if dgr_time_lastreceive st = 0 then 10000 else 0) =
      Inr (st', w')"
    by (auto simp: dgr_update_def)
  from a rc obtain numbytes serialized w1 where
    lp: "receive_loop w [] = Inr (numbytes, serialized, w1)" and
    un: "dgr_unserialize e (st\<lparr>dgr_time_lastreceive := clock w1\<rparr>) numbytes serialized = Inr st'"
    by (auto simp: dgr_receive_def poll_def Let_def split: if_splits sum.splits)
  from receive_loop_clock [OF lp] have c1: "clock w1 = clock w" .
  from unserialize_loop_others [OF un [unfolded dgr_unserialize_def]] a c1
  have t: "dgr_time_lastreceive st' = clock w" and m: "dgr_mode st' = 0"
    and d: "dgr_disabled st' = 0" by simp_all
  from t show "dgr_time_lastreceive st' = clock w" .
  from t m d a show "dgr_update e st' w2 = Inl (Exit (NoPacketsWithin 15))"
    by (simp add: dgr_update_def dgr_receive_def)
qed

theorem liveness_timeouts_witness:
  "dgr_update LittleEndian (initial_state\<lparr>dgr_time_lastreceive := 100\<rparr>)
      \<lparr>clock = 115, pending = [[65, 0, 1, 0, 0, 0, 3]], poll_fails = False,
       recvfrom_fails = False, sendto_accepts = None, sent = []\<rparr> =
     Inl (Exit (NoPacketsWithin 15))
   \<and> dgr_update LittleEndian initial_state
      \<lparr>clock = 100, pending = [], poll_fails = False,
       recvfrom_fails = False, sendto_accepts = None, sent = []\<rparr> =
     Inl (Exit (ReceiveTimedOut 10000))
   \<and> dgr_update LittleEndian
      \<lparr>dgr_list = [\<lparr>name = [65], size_r = 1, buffer = [3]\<rparr>], dgr_time_lastreceive = 100,
       dgr_mode = 0, dgr_disabled = 0\<rparr>
      \<lparr>clock = 115, pending = [], poll_fails = False,
       recvfrom_fails = False, sendto_accepts = None, sent = []\<rparr> =
     Inl (Exit (NoPacketsWithin 15))"
proof -
  let ?A = "\<lparr>name = [65], size_r = 1, buffer = [3]\<rparr>"
  let ?P = "[65, 0, 1, 0, 0, 0, 3] :: byte list"
  let ?w = "\<lparr>clock = 100, pending = [?P], poll_fails = False,
       recvfrom_fails = False, sendto_accepts = None, sent = []\<rparr>"
  let ?w2 = "\<lparr>clock = 115, pending = [], poll_fails = False,
       recvfrom_fails = False, sendto_accepts = None, sent = []\<rparr>"
  let ?st' = "\<lparr>dgr_list = [?A], dgr_time_lastreceive = 100, dgr_mode = 0, dgr_disabled = 0\<rparr>"
  have okA: "list_all record_ok [?A]" by (simp add: record_ok_def)
  have wire: "wire_format LittleEndian [?A] = ?P"
    by (simp add: wire_format_def wire_record_def int_bytes_def)
  have parse: "parse_records LittleEndian (int (length ?P)) ?P = Inr [([65], 1, [3])]"
    using parse_records_wire [OF okA, of LittleEndian] by (simp add: wire)
  have sets: "set_all (initial_state\<lparr>dgr_time_lastreceive := 100\<rparr>) [([65], 1, [3])] = Inr ?st'"
    using set_all_fresh [of "initial_state\<lparr>dgr_time_lastreceive := 100\<rparr>" "[?A]"]
    by (simp add: initial_state_def registry_ok_def record_ok_def DGR_MAX_LIST_SIZE_def)
  have "dgr_update LittleEndian initial_state ?w =
      (case set_all (initial_state\<lparr>dgr_time_lastreceive := clock ?w\<rparr>) [([65], 1, [3])] of
         Inl f \<Rightarrow> Inl f
       | Inr st' \<Rightarrow> Inr (st', ?w\<lparr>pending := []\<rparr>))"
    using parse
    by (intro dgr_update_newest [where older = "[]" and newest = ?P])
      (simp_all add: initial_state_def)
  then have upd: "dgr_update LittleEndian initial_state ?w = Inr (?st', ?w\<lparr>pending := []\<rparr>)"
    by (simp add: sets del: set_all.simps)
  show ?thesis
    using liveness_timeouts [of "initial_state\<lparr>dgr_time_lastreceive := 100\<rparr>"
        "\<lparr>clock = 115, pending = [[65, 0, 1, 0, 0, 0, 3]], poll_fails = False,
          recvfrom_fails = False, sendto_accepts = None, sent = []\<rparr>" LittleEndian]
      liveness_timeouts [of initial_state
        "\<lparr>clock = 100, pending = [], poll_fails = False,
          recvfrom_fails = False, sendto_accepts = None, sent = []\<rparr>" LittleEndian]
      liveness_timeouts [of initial_state ?w LittleEndian ?st' "?w\<lparr>pending := []\<rparr>" ?w2]
      upd
    by (simp add: initial_state_def)
qed

subsection \<open>Before dgr\_init\<close>

text \<open>
  Claim C10. With the statics as their initialisers leave them, \<open>dgr_is_enabled\<close> is 1
  and \<open>dgr_is_master\<close> is 0; \<open>dgr_get\<close> does look the name up (it returns -1, not the -3
  of a disabled session), and \<open>dgr_update\<close> waits for a packet and exits when none
  arrives. After \<open>dgr_init\<close> with \<^verbatim>\<open>DGR_MODE\<close> neither \<open>master\<close> nor \<open>slave\<close>, the session
  is disabled: \<open>dgr_get\<close> returns -3, and \<open>dgr_setget\<close> and \<open>dgr_update\<close> return the state
  (and the buffer, the socket) as they were.
\<close>

theorem uninitialised_session_is_enabled_slave:
  "dgr_is_enabled initial_state = 1 \<and> dgr_is_master initial_state = 0
   \<and> dgr_get initial_state nm buf bufferSize = Inr (- 1, buf)
   \<and> (pending w = [] \<and> \<not> poll_fails w \<longrightarrow>
        dgr_update e initial_state w = Inl (Exit (ReceiveTimedOut 10000)))
   \<and> (DGR_MODE env \<noteq> Some ''master'' \<and> DGR_MODE env \<noteq> Some ''slave'' \<longrightarrow>
        (\<exists>st'. dgr_init env st = Inr st' \<and> dgr_is_enabled st' = 0 \<and>
           dgr_get st' nm buf bufferSize = Inr (- 3, buf) \<and>
           dgr_setget st' nm buf bufferSize = Inr (st', buf) \<and>
           dgr_update e st' w = Inr (st', w)))"
proof (intro conjI impI)
  show "dgr_is_enabled initial_state = 1" "dgr_is_master initial_state = 0"
    by (simp_all add: dgr_is_enabled_def dgr_is_master_def initial_state_def)
  show "dgr_get initial_state nm buf bufferSize = Inr (- 1, buf)"
    by (simp add: dgr_get_def dgr_findIndex_def initial_state_def)
next
  assume "pending w = [] \<and> \<not> poll_fails w"
  then show "dgr_update e initial_state w = Inl (Exit (ReceiveTimedOut 10000))"
    by (simp add: dgr_update_def dgr_receive_def poll_def initial_state_def)
next
  assume a: "DGR_MODE env \<noteq> Some ''master'' \<and> DGR_MODE env \<noteq> Some ''slave''"
  define st' where "st' = (if 0 < dgr_list_size (st\<lparr>dgr_disabled := 1\<rparr>)
      then dgr_free (st\<lparr>dgr_disabled := 1\<rparr>) else st\<lparr>dgr_disabled := 1\<rparr>)"
  from a have init: "dgr_init env st = Inr st'"
    by (cases "DGR_MODE env") (simp_all add: dgr_init_def st'_def)
  have dis: "dgr_disabled st' = 1"
    by (simp add: st'_def dgr_free_def)
  from dis have "dgr_is_enabled st' = 0" "dgr_get st' nm buf bufferSize = Inr (- 3, buf)"
    "dgr_setget st' nm buf bufferSize = Inr (st', buf)" "dgr_update e st' w = Inr (st', w)"
    by (simp_all add: dgr_is_enabled_def dgr_get_def dgr_setget_def dgr_update_def dgr_send_def
        dgr_receive_def)
  with init show "\<exists>st'. dgr_init env st = Inr st' \<and> dgr_is_enabled st' = 0 \<and>
           dgr_get st' nm buf bufferSize = Inr (- 3, buf) \<and>
           dgr_setget st' nm buf bufferSize = Inr (st', buf) \<and>
           dgr_update e st' w = Inr (st', w)" by blast
qed

theorem uninitialised_session_is_enabled_slave_witness:
  "dgr_is_enabled initial_state = 1 \<and> dgr_is_master initial_state = 0
   \<and> dgr_update LittleEndian initial_state
       \<lparr>clock = 100, pending = [], poll_fails = False, recvfrom_fails = False,
        sendto_accepts = None, sent = []\<rparr> = Inl (Exit (ReceiveTimedOut 10000))
   \<and> (\<exists>st'. dgr_init \<lparr>DGR_MODE = None, DGR_MASTER_DEST_IP = None, DGR_MASTER_DEST_PORT = None,
           DGR_SLAVE_LISTEN_PORT = None, getaddrinfo_ok = True, socket_ok = True\<rparr>
         initial_state = Inr st' \<and> dgr_is_enabled st' = 0 \<and>
         dgr_update LittleEndian st'
           \<lparr>clock = 100, pending = [], poll_fails = False, recvfrom_fails = False,
            sendto_accepts = None, sent = []\<rparr> =
         Inr (st', \<lparr>clock = 100, pending = [], poll_fails = False, recvfrom_fails = False,
            sendto_accepts = None, sent = []\<rparr>))"
  using uninitialised_session_is_enabled_slave [of "[120]" "[0]" 1
      "\<lparr>clock = 100, pending = [], poll_fails = False, recvfrom_fails = False,
        sendto_accepts = None, sent = []\<rparr>" LittleEndian
      "\<lparr>DGR_MODE = None, DGR_MASTER_DEST_IP = None, DGR_MASTER_DEST_PORT = None,
           DGR_SLAVE_LISTEN_PORT = None, getaddrinfo_ok = True, socket_ok = True\<rparr>" initial_state]
  by simp blast

subsection \<open>A full list\<close>

lemma full_list_ok:
  "registry_ok (map (\<lambda>i. \<lparr>name = replicate i 97, size_r = 0, buffer = []\<rparr>) [0..<1024])"
proof -
  have "inj_on (\<lambda>i. replicate i (97 :: byte)) (set [0..<1024])"
    by (rule inj_onI) (metis length_replicate)
  then have "distinct (map (\<lambda>i. replicate i (97 :: byte)) [0..<1024])"
    by (simp add: distinct_map)
  then have "distinct (map name (map (\<lambda>i. \<lparr>name = replicate i 97, size_r = 0, buffer = []\<rparr>) [0..<1024]))"
    by (simp add: comp_def)
  moreover have "list_all record_ok (map (\<lambda>i. \<lparr>name = replicate i 97, size_r = 0, buffer = []\<rparr>) [0..<1024])"
    by (simp add: list_all_iff record_ok_def)
  ultimately show ?thesis
    by (simp add: registry_ok_def DGR_MAX_LIST_SIZE_def)
qed

lemma full_list_no_b:
  "dgr_findIndex (st\<lparr>dgr_list := map (\<lambda>i. \<lparr>name = replicate i 97, size_r = 0, buffer = []\<rparr>) [0..<1024]\<rparr>)
     [98] = - 1"
  by (simp add: dgr_findIndex_def findIndex_from_none strcmp_eq_def c_string_id c_string_def
      Cons_replicate_eq)

text \<open>
  Claim C5 fails on the code. A master that has set 1024 variables (named by 0 to 1023
  letters \<open>a\<close>, each of size 0) has \<^verbatim>\<open>dgr_list_size == DGR_MAX_LIST_SIZE\<close>. A call of
  \<open>dgr_set\<close> with the new name \<open>b\<close> passes the test
  \<^verbatim>\<open>dgr_list_size > DGR_MAX_LIST_SIZE\<close> and writes the slot \<^verbatim>\<open>dgr_list[1024]\<close>, one past
  the end of the array, where the claim has the call fail for a full list.
\<close>

theorem dgr_set_full_list_out_of_bounds:
  "set_all (initial_state\<lparr>dgr_mode := 1\<rparr>) (map (\<lambda>i. (replicate i 97, 0, [])) [0..<1024]) =
     Inr (initial_state\<lparr>dgr_mode := 1, dgr_list :=
       map (\<lambda>i. \<lparr>name = replicate i 97, size_r = 0, buffer = []\<rparr>) [0..<1024]\<rparr>)
   \<and> dgr_list_size (initial_state\<lparr>dgr_mode := 1, dgr_list :=
       map (\<lambda>i. \<lparr>name = replicate i 97, size_r = 0, buffer = []\<rparr>) [0..<1024]\<rparr>) =
     DGR_MAX_LIST_SIZE
   \<and> dgr_set (initial_state\<lparr>dgr_mode := 1, dgr_list :=
       map (\<lambda>i. \<lparr>name = replicate i 97, size_r = 0, buffer = []\<rparr>) [0..<1024]\<rparr>) [98] [] 0 =
     Inl WriteOutOfBounds"
proof -
  let ?full = "map (\<lambda>i. \<lparr>name = replicate i 97, size_r = 0, buffer = []\<rparr>) [0..<1024]"
  have "set_all (initial_state\<lparr>dgr_mode := 1\<rparr>) (map (\<lambda>r. (name r, size_r r, buffer r)) ?full) =
      Inr (initial_state\<lparr>dgr_mode := 1, dgr_list := dgr_list (initial_state\<lparr>dgr_mode := 1\<rparr>) @ ?full\<rparr>)"
    using set_all_fresh [of "initial_state\<lparr>dgr_mode := 1\<rparr>" ?full] full_list_ok
    by (simp add: initial_state_def)
  then have a: "set_all (initial_state\<lparr>dgr_mode := 1\<rparr>) (map (\<lambda>i. (replicate i 97, 0, [])) [0..<1024]) =
     Inr (initial_state\<lparr>dgr_mode := 1, dgr_list := ?full\<rparr>)"
    by (simp add: comp_def initial_state_def)
  have b: "dgr_list_size (initial_state\<lparr>dgr_mode := 1, dgr_list := ?full\<rparr>) = DGR_MAX_LIST_SIZE"
    by (simp add: dgr_list_size_def DGR_MAX_LIST_SIZE_def)
  have c: "dgr_set (initial_state\<lparr>dgr_mode := 1, dgr_list := ?full\<rparr>) [98] [] 0 = Inl WriteOutOfBounds"
    unfolding dgr_set_def full_list_no_b b
    by (simp add: initial_state_def)
  from a b c show ?thesis by (intro conjI)
qed

subsection \<open>A size field larger than the packet\<close>

text \<open>
  Claim C2 fails on the code. The six bytes \<open>a\<close>, 0x00 and the size 100 are a packet
  whose size field exceeds the bytes that remain (none). \<open>dgr_unserialize\<close> compares
  nothing with the length of the input: \<^verbatim>\<open>memcpy(data, ptr, size)\<close> reads 100 bytes past
  the end of the packet, where the claim has it fail with a decoding error and read
  nothing beyond the input. In \<open>dgr_receive\<close> the bytes read past the end of the newest
  datagram can be those of an older, longer one: after the ten bytes \<open>A\<close>, 0x00, the size
  4 and \<open>1111\<close>, the six bytes \<open>A\<close>, 0x00 and the size 4 make \<open>dgr_update\<close> store
  \<open>1111\<close>, data that the newest datagram does not hold.
\<close>

theorem dgr_unserialize_trusts_size_field:
  "dgr_unserialize e initial_state 6 ([97, 0] @ int_bytes e 100) = Inl ReadOutOfBounds
   \<and> dgr_unserialize LittleEndian initial_state 6 [97, 0, 100, 0, 0, 0] = Inl ReadOutOfBounds
   \<and> dgr_update LittleEndian initial_state
       \<lparr>clock = 100,
        pending = [[65, 0, 4, 0, 0, 0, 49, 49, 49, 49], [65, 0, 4, 0, 0, 0]],
        poll_fails = False, recvfrom_fails = False, sendto_accepts = None, sent = []\<rparr> =
     Inr (\<lparr>dgr_list = [\<lparr>name = [65], size_r = 4, buffer = [49, 49, 49, 49]\<rparr>],
           dgr_time_lastreceive = 100, dgr_mode = 0, dgr_disabled = 0\<rparr>,
          \<lparr>clock = 100, pending = [], poll_fails = False, recvfrom_fails = False,
           sendto_accepts = None, sent = []\<rparr>)"
proof -
  have a: "dgr_unserialize e' initial_state 6 ([97, 0] @ int_bytes e' 100) = Inl ReadOutOfBounds"
    for e'
  proof -
    have "read_record e' ([97, 0] @ int_bytes e' 100) = Inl ReadOutOfBounds"
      by (simp add: read_record_def strlen_def c_string_def length_int_bytes bytes_int_int_bytes)
    then show ?thesis
      by (simp add: dgr_unserialize_def unserialize_loop_fault)
  qed
  have "int_bytes LittleEndian 100 = [100, 0, 0, 0]"
    by (simp add: int_bytes_def)
  with a [of LittleEndian] have b: "dgr_unserialize LittleEndian initial_state 6
      [97, 0, 100, 0, 0, 0] = Inl ReadOutOfBounds" by simp
  let ?w = "\<lparr>clock = 100,
        pending = [[65, 0, 4, 0, 0, 0, 49, 49, 49, 49], [65, 0, 4, 0, 0, 0]],
        poll_fails = False, recvfrom_fails = False, sendto_accepts = None, sent = []\<rparr>"
  have lp: "receive_loop ?w [] =
      Inr (6, [65, 0, 4, 0, 0, 0, 49, 49, 49, 49], ?w\<lparr>pending := []\<rparr>)"
    by (simp add: receive_loop.simps recvfrom_def poll_def)
  have rd: "read_record LittleEndian [65, 0, 4, 0, 0, 0, 49, 49, 49, 49] =
      Inr ([65], 4, [49, 49, 49, 49], [])"
    by (simp add: read_record_def strlen_def c_string_def bytes_int_def)
  have un: "dgr_unserialize LittleEndian (initial_state\<lparr>dgr_time_lastreceive := 100\<rparr>) 6
      [65, 0, 4, 0, 0, 0, 49, 49, 49, 49] =
      Inr \<lparr>dgr_list = [\<lparr>name = [65], size_r = 4, buffer = [49, 49, 49, 49]\<rparr>],
           dgr_time_lastreceive = 100, dgr_mode = 0, dgr_disabled = 0\<rparr>"
    by (simp add: dgr_unserialize_def unserialize_loop_step [OF _ rd] unserialize_loop_done
        dgr_set_def dgr_findIndex_def initial_state_def dgr_list_size_def DGR_MAX_LIST_SIZE_def
        strlen_def c_string_def malloc_def memcpy_def)
  have c: "dgr_update LittleEndian initial_state ?w =
     Inr (\<lparr>dgr_list = [\<lparr>name = [65], size_r = 4, buffer = [49, 49, 49, 49]\<rparr>],
           dgr_time_lastreceive = 100, dgr_mode = 0, dgr_disabled = 0\<rparr>,
          ?w\<lparr>pending := []\<rparr>)"
    by (simp add: dgr_update_def dgr_receive_def poll_def lp un)
      (simp add: initial_state_def)
  from a [of e] b c show ?thesis by simp
qed

end
